theory Spec2Isabelle
  imports Complex_Main "HOL-Library.AList" "HOL-Library.Sublist"
begin

section \<open>Go values used by \<^verbatim>\<open>pkg/project/stack.go\<close>\<close>

text \<open>
  A decoded JSON document is what \<^verbatim>\<open>encoding/json\<close> stores in an \<^verbatim>\<open>interface{}\<close>:
  \<^verbatim>\<open>nil\<close>, \<^verbatim>\<open>bool\<close>, \<^verbatim>\<open>float64\<close>, \<^verbatim>\<open>string\<close>, \<^verbatim>\<open>[]interface{}\<close> and
  \<^verbatim>\<open>map[string]interface{}\<close>. A Go map is written as an association list; assigning
  \<^verbatim>\<open>m[k] = v\<close> is \<^const>\<open>AList.update\<close>, reading \<^verbatim>\<open>m[k]\<close> goes through \<^const>\<open>map_of\<close>, and
  a \<^verbatim>\<open>range\<close> loop walks the list. Go maps hold every key once, which is the predicate
  \<open>unique_keys\<close> below; Go leaves the iteration order open, and nothing proved
  here depends on it.
\<close>

datatype json =
    JNull
  | JBool bool
  | JNumber real
  | JString string
  | JArray "json list"
  | JObject "(string \<times> json) list"

type_synonym gomap = "(string \<times> json) list"

text \<open>The two run-time panics the file can raise: a failed type assertion
  \<^verbatim>\<open>x.(T)\<close> and an index out of range.\<close>

datatype panic = InterfaceConversion | IndexOutOfRange

text \<open>Error values. The two sentinels of the provider package and the two of this file
  are constructors of their own; \<open>ErrWrapped\<close> is \<^verbatim>\<open>fmt.Errorf("...: %w", err)\<close>, and
  \<open>ErrOther\<close> is any other error a collaborator returns.\<close>

datatype error =
    ErrLockExists
  | ErrStateNotFound
  | ErrStackRunFailed
  | ErrStageNotFound
  | ErrOther string
  | ErrWrapped string error

text \<open>\<^verbatim>\<open>errors.Is\<close>: the error itself or anything it wraps.\<close>

fun errors_Is :: "error \<Rightarrow> error \<Rightarrow> bool" where
  "errors_Is (ErrWrapped msg err) target = (ErrWrapped msg err = target \<or> errors_Is err target)"
| "errors_Is err target = (err = target)"

text \<open>How a call ends: it returns its \<^verbatim>\<open>error\<close> (\<open>None\<close> is \<^verbatim>\<open>nil\<close>) or it panics.\<close>

datatype outcome = Returned "error option" | Panicked panic

text \<open>\<^verbatim>\<open>m[k]\<close> on a \<^verbatim>\<open>map[string]interface{}\<close>: the zero value \<^verbatim>\<open>nil\<close> when the key is
  missing.\<close>

definition index :: "gomap \<Rightarrow> string \<Rightarrow> json" where
  "index m k = (case map_of m k of None \<Rightarrow> JNull | Some v \<Rightarrow> v)"

text \<open>\<^verbatim>\<open>strings.HasPrefix(s, prefix)\<close>.\<close>

definition HasPrefix :: "string \<Rightarrow> string \<Rightarrow> bool" where
  "HasPrefix s p = prefix p s"

text \<open>\<^verbatim>\<open>var parsed any; json.Unmarshal([]byte(s), &parsed)\<close> with the error dropped:
  \<^verbatim>\<open>parsed\<close> stays \<^verbatim>\<open>nil\<close> when the text is not JSON. The decoder itself belongs to the
  Go library and is a parameter \<open>U\<close> (\<open>Inl\<close> is a decoding error).\<close>

type_synonym decoder = "string \<Rightarrow> error + json"

definition parsed_any :: "decoder \<Rightarrow> string \<Rightarrow> json" where
  "parsed_any U s = (case U s of Inl err \<Rightarrow> JNull | Inr v \<Rightarrow> v)"

section \<open>\<^verbatim>\<open>decrypt\<close>\<close>

text \<open>
  \<^verbatim>\<open>decrypt\<close> (lines 630 to 646) ranges over the entries of its argument. An entry whose
  value is a map with a non-nil \<^verbatim>\<open>plaintext\<close> is overwritten with the parsed text, and
  the assertion \<^verbatim>\<open>value["plaintext"].(string)\<close> panics when that field is not a string;
  any other map is overwritten with its own decryption; every other kind of value,
  slices included, takes the \<^verbatim>\<open>default\<close> branch and is left alone. The map is changed
  in place and returned; here the new map is the result.
\<close>

fun decrypt :: "decoder \<Rightarrow> gomap \<Rightarrow> panic + gomap"
and decrypt_entry :: "decoder \<Rightarrow> json \<Rightarrow> panic + json" where
  "decrypt U [] = Inr []"
| "decrypt U ((key, v) # rest) =
     (case decrypt_entry U v of
        Inl p \<Rightarrow> Inl p
      | Inr v' \<Rightarrow>
          (case decrypt U rest of
             Inl p \<Rightarrow> Inl p
           | Inr rest' \<Rightarrow> Inr ((key, v') # rest')))"
| "decrypt_entry U (JObject val) =
     (if index val ''plaintext'' \<noteq> JNull then
        (case index val ''plaintext'' of
           JString s \<Rightarrow> Inr (parsed_any U s)
         | _ \<Rightarrow> Inl InterfaceConversion)
      else map_sum id JObject (decrypt U val))"
| "decrypt_entry U v = Inr v"

text \<open>The iterations of the \<^verbatim>\<open>range\<close> loops of a call that does not panic, each named
  by the path of keys that leads to the entry it handles.\<close>

fun decrypt_visits :: "string list \<Rightarrow> gomap \<Rightarrow> string list list"
and entry_visits :: "string list \<Rightarrow> json \<Rightarrow> string list list" where
  "decrypt_visits p [] = []"
| "decrypt_visits p ((key, v) # rest) =
     (p @ [key]) # entry_visits (p @ [key]) v @ decrypt_visits p rest"
| "entry_visits p (JObject val) =
     (if index val ''plaintext'' \<noteq> JNull then [] else decrypt_visits p val)"
| "entry_visits p v = []"

subsection \<open>Vocabulary for the statements about \<^verbatim>\<open>decrypt\<close>\<close>

text \<open>Every map reachable through maps holds each key once.\<close>

fun unique_keys :: "json \<Rightarrow> bool" where
  "unique_keys (JObject m) = (distinct (map fst m) \<and> list_all (\<lambda>kv. unique_keys (snd kv)) m)"
| "unique_keys v = True"

text \<open>An object is a wrapper when \<^verbatim>\<open>value["plaintext"] != nil\<close>.\<close>

definition wrapper :: "gomap \<Rightarrow> bool" where
  "wrapper m = (index m ''plaintext'' \<noteq> JNull)"

text \<open>The entry found by following a path of keys through nested maps, none of the maps
  passed through being a wrapper.\<close>

fun entry_at :: "string list \<Rightarrow> gomap \<Rightarrow> json option" where
  "entry_at [] m = None"
| "entry_at [k] m = map_of m k"
| "entry_at (k # ks) m =
     (case map_of m k of
        Some (JObject obj) \<Rightarrow> if wrapper obj then None else entry_at ks obj
      | _ \<Rightarrow> None)"

text \<open>No map anywhere in the value, inside slices too, has a \<^verbatim>\<open>plaintext\<close> key.\<close>

fun no_plaintext :: "json \<Rightarrow> bool" where
  "no_plaintext (JObject m) =
     (''plaintext'' \<notin> fst ` set m \<and> list_all (\<lambda>kv. no_plaintext (snd kv)) m)"
| "no_plaintext (JArray xs) = list_all no_plaintext xs"
| "no_plaintext v = True"

text \<open>A stand-in for the decoder on the two texts the examples use.\<close>

definition Unmarshal_examples :: decoder where
  \<open>Unmarshal_examples s =
     (if s = ''{"b":1}'' then Inr (JObject [(''b'', JNumber 1)])
      else if s = ''7'' then Inr (JNumber 7)
      else Inl (ErrOther ''invalid character''))\<close>

section \<open>The data of a run\<close>

text \<open>
  The engine's event type belongs to the engine's SDK. \<^verbatim>\<open>Run\<close> reads the diagnostic
  payload (severity, message and URN) and whether the summary payload is present; the
  other payloads travel unread and are kept as one field.
\<close>

record DiagnosticEvent =
  URN :: string
  Message :: string
  Severity :: string

record SummaryEvent =
  DurationSeconds :: int

record EngineEvent =
  Sequence :: int
  Timestamp :: int
  DiagnosticEvent :: "DiagnosticEvent option"
  SummaryEvent :: "SummaryEvent option"
  OtherPayload :: string

record StdOutEvent =
  Text :: string

record StackCommandEvent =
  Command :: string

record Error =
  Message :: string
  URN :: string

record Receiver =
  Links :: "string list"
  Environment :: "(string \<times> string) list"

record Warp =
  FunctionID :: string
  Runtime :: string
  Handler :: string
  Bundle :: string
  Properties :: string
  Links :: "string list"
  Environment :: "(string \<times> string) list"

text \<open>The fields of the SDK's \<^verbatim>\<open>apitype.ResourceV3\<close> that this file reads or writes.\<close>

record ResourceV3 =
  URN :: string
  Custom :: bool
  ID :: string
  Type :: string
  Outputs :: gomap
  Parent :: string

record CompleteEvent =
  Links :: gomap
  Warps :: "(string \<times> Warp) list"
  Receivers :: "(string \<times> Receiver) list"
  Outputs :: gomap
  Hints :: "(string \<times> string) list"
  Errors :: "Error list"
  Finished :: bool
  Resources :: "ResourceV3 list"

text \<open>\<^verbatim>\<open>StackEvent\<close> embeds the engine event by value and points to the four other
  payloads; \<^verbatim>\<open>ConcurrentUpdateEvent\<close> is an empty struct.\<close>

record StackEvent =
  EngineEvent :: EngineEvent
  StdOutEvent :: "StdOutEvent option"
  ConcurrentUpdateEvent :: "unit option"
  CompleteEvent :: "CompleteEvent option"
  StackCommandEvent :: "StackCommandEvent option"

text \<open>\<^verbatim>\<open>StackInput\<close>: the two callbacks are seen through the calls made to them;
  \<open>has_OnFiles\<close> is \<^verbatim>\<open>input.OnFiles != nil\<close>.\<close>

record StackInput =
  has_OnFiles :: bool
  Command :: string
  Dev :: bool

record ImportOptions =
  Type :: string
  Name :: string
  ID :: string
  Parent :: string

text \<open>What the file reads of \<^verbatim>\<open>s.project.app\<close>.\<close>

record App =
  Name :: string
  Stage :: string
  Providers :: gomap

record BuildResult =
  OutputFiles :: "string list"
  Metafile :: string

definition zero_EngineEvent :: EngineEvent where
  "zero_EngineEvent =
     \<lparr>Sequence = 0, Timestamp = 0, DiagnosticEvent = None, SummaryEvent = None,
      OtherPayload = []\<rparr>"

definition zero_StackEvent :: StackEvent where
  "zero_StackEvent =
     \<lparr>EngineEvent = zero_EngineEvent, StdOutEvent = None, ConcurrentUpdateEvent = None,
      CompleteEvent = None, StackCommandEvent = None\<rparr>"

definition zero_ResourceV3 :: ResourceV3 where
  "zero_ResourceV3 =
     \<lparr>ResourceV3.URN = [], Custom = False, ResourceV3.ID = [], ResourceV3.Type = [],
      ResourceV3.Outputs = [], ResourceV3.Parent = []\<rparr>"

text \<open>Everything the run does to the outside, in the order it does it: the calls to the
  caller's callbacks, to the provider package, to the file system and to the engine.\<close>

datatype effect =
    OnEvent StackEvent
  | OnFiles "string list"
  | ProviderLock
  | ProviderUnlock
  | ProviderPullState
  | ProviderPushState
  | ProviderPutLinks gomap
  | OsReadDir
  | OsRemove string
  | OsRemoveAll
  | OsMkdirAll
  | NewLocalWorkspace
  | UpsertStack
  | SelectStack
  | SetAllConfig "(string \<times> string) list"
  | EngineOp string
  | EventLogWrite string
  | EventLogClose
  | TypesFileWrite string
  | TypesFileClose
  | StackExport
  | StackImport "ResourceV3 list"
  | StackRefreshTarget string
  | Println string

text \<open>What the \<^verbatim>\<open>select\<close> of the consumer goroutine yields at each turn of its loop.\<close>

datatype select_result = ctx_Done | stream_event EngineEvent | stream_closed

text \<open>
  The collaborators: the provider package, the file system, the bundler, the engine and
  the Go library. A \<open>world\<close> fixes what each of their calls answers during one run of
  \<^verbatim>\<open>Run\<close> or \<^verbatim>\<open>Import\<close>. \<open>select_results\<close> is what the consumer's \<^verbatim>\<open>select\<close> sees, turn
  by turn, while the engine call blocks; \<open>deployment_Resources\<close> is
  \<^verbatim>\<open>deployment.Resources\<close> after \<^verbatim>\<open>json.Unmarshal(..., &deployment)\<close>, whatever that call
  returned.
\<close>

record world =
  provider_Lock :: "error option"
  provider_Unlock :: "error option"
  provider_PullState :: "error option"
  provider_PushState :: "error option"
  provider_Passphrase :: "error option"
  provider_GetSecrets :: "error option"
  home_Env :: "error option"
  os_ReadDir :: "error + string list"
  os_Remove :: "string \<Rightarrow> error option"
  os_RemoveAll :: "error option"
  os_MkdirAll :: "error option"
  os_Create_eventlog :: "error option"
  os_Create_types :: "error option"
  filepath_Abs :: "string \<Rightarrow> error + string"
  json_Marshal_cli :: "error option"
  json_Marshal_app :: "error option"
  json_Marshal_event :: "EngineEvent \<Rightarrow> error + string"
  json_Unmarshal :: decoder
  decode_Warp :: "json \<Rightarrow> Warp"
  decode_Receiver :: "json \<Rightarrow> Receiver"
  inferTypes :: "gomap \<Rightarrow> string \<Rightarrow> string"
  js_Build :: "error + BuildResult"
  auto_NewLocalWorkspace :: "error option"
  auto_UpsertStack :: "error option"
  auto_SelectStack :: "error option"
  stack_SetAllConfig :: "error option"
  select_results :: "select_result list"
  engine_result :: "error option"
  stack_Export :: "error option"
  Unmarshal_deployment :: "error option"
  deployment_Resources :: "ResourceV3 list"
  stack_Import :: "error option"
  stack_Refresh :: "error option"
  resource_ParseURN :: "string \<Rightarrow> error + string"
  tokens_ParseTypeToken :: "string \<Rightarrow> error + string"

section \<open>The event consumer\<close>

text \<open>
  Lines 289 to 323: the goroutine that drains the event channel. It stops when the
  context is cancelled, when the channel is closed, and when an event cannot be
  serialised. The \<^verbatim>\<open>break\<close> of line 301 leaves the \<^verbatim>\<open>select\<close>, not the \<^verbatim>\<open>for\<close>: the loop
  goes on with the next event, and the callback, the summary test and the log are passed
  over for the event at hand. A list of \<open>select_result\<close> that ends with neither
  \<open>ctx_Done\<close> nor \<open>stream_closed\<close> leaves the goroutine waiting.
\<close>

definition engine_StackEvent :: "EngineEvent \<Rightarrow> StackEvent" where
  "engine_StackEvent event = zero_StackEvent\<lparr>EngineEvent := event\<rparr>"

definition newline :: string where
  "newline = [CHR 0x0A]"

fun consume ::
  "(EngineEvent \<Rightarrow> error + string) \<Rightarrow> select_result list \<Rightarrow> CompleteEvent \<Rightarrow>
     CompleteEvent \<times> effect list" where
  "consume M [] complete0 = (complete0, [])"
| "consume M (ctx_Done # rest) complete0 = (complete0, [])"
| "consume M (stream_closed # rest) complete0 = (complete0, [])"
| "consume M (stream_event event # rest) complete0 =
     (case (case DiagnosticEvent event of
              Some d \<Rightarrow>
                if Severity d = ''error'' then
                  (if HasPrefix (DiagnosticEvent.Message d) ''update failed'' then None
                   else Some (complete0\<lparr>Errors := Errors complete0 @
                          [\<lparr>Error.Message = DiagnosticEvent.Message d,
                            Error.URN = DiagnosticEvent.URN d\<rparr>]\<rparr>))
                else Some complete0
            | None \<Rightarrow> Some complete0) of
        None \<Rightarrow> consume M rest complete0
      | Some c1 \<Rightarrow>
          (let c2 = (if SummaryEvent event \<noteq> None then c1\<lparr>Finished := True\<rparr> else c1)
           in case M event of
                Inl err \<Rightarrow> (c2, [OnEvent (engine_StackEvent event)])
              | Inr bytes \<Rightarrow>
                  (case consume M rest c2 of
                     (c3, es) \<Rightarrow>
                       (c3, [OnEvent (engine_StackEvent event), EventLogWrite bytes,
                             EventLogWrite newline] @ es))))"

section \<open>Output extraction\<close>

text \<open>Lines 279 to 287: the result record a run starts from.\<close>

definition new_complete :: CompleteEvent where
  "new_complete =
     \<lparr>CompleteEvent.Links = [], Warps = [], Receivers = [], CompleteEvent.Outputs = [],
      Hints = [], Errors = [], Finished = False, Resources = []\<rparr>"

text \<open>The four loops of lines 341, 357, 368 and 379 and the last loop of line 387.\<close>

definition merge_links :: "gomap \<Rightarrow> CompleteEvent \<Rightarrow> CompleteEvent" where
  "merge_links links c =
     c\<lparr>CompleteEvent.Links :=
         fold (\<lambda>(key, v) m. AList.update key v m) links (CompleteEvent.Links c)\<rparr>"

definition merge_hints :: "gomap \<Rightarrow> CompleteEvent \<Rightarrow> CompleteEvent" where
  "merge_hints hints c =
     c\<lparr>Hints :=
         fold (\<lambda>(key, v) m. case v of JString str \<Rightarrow> AList.update key str m | _ \<Rightarrow> m)
           hints (Hints c)\<rparr>"

definition merge_warps :: "(json \<Rightarrow> Warp) \<Rightarrow> gomap \<Rightarrow> CompleteEvent \<Rightarrow> CompleteEvent" where
  "merge_warps dec warps c =
     c\<lparr>Warps := fold (\<lambda>(key, v) m. AList.update key (dec v) m) warps (Warps c)\<rparr>"

definition merge_receivers ::
  "(json \<Rightarrow> Receiver) \<Rightarrow> gomap \<Rightarrow> CompleteEvent \<Rightarrow> CompleteEvent" where
  "merge_receivers dec receivers c =
     c\<lparr>Receivers := fold (\<lambda>(key, v) m. AList.update key (dec v) m) receivers (Receivers c)\<rparr>"

definition merge_outputs :: "gomap \<Rightarrow> CompleteEvent \<Rightarrow> CompleteEvent" where
  "merge_outputs outputs c =
     c\<lparr>CompleteEvent.Outputs :=
         fold (\<lambda>(key, v) m. if HasPrefix key ''_'' then m else AList.update key v m)
           outputs (CompleteEvent.Outputs c)\<rparr>"

text \<open>Lines 344 to 351: the five writes to the types file, which do nothing when the
  file could not be created, and the call that stores the links.\<close>

definition links_effects :: "world \<Rightarrow> gomap \<Rightarrow> effect list" where
  \<open>links_effects w links =
     (if os_Create_types w = None then
        [TypesFileWrite (''import "sst"'' @ newline),
         TypesFileWrite (''declare module "sst" {'' @ newline),
         TypesFileWrite (''  export interface Resource '' @ inferTypes w links ''  '' @ newline),
         TypesFileWrite (''}'' @ newline),
         TypesFileWrite ''export {}'']
      else []) @ [ProviderPutLinks links]\<close>

text \<open>
  One of the four reserved keys: \<^verbatim>\<open>v, ok := outputs[key]; if ok { m := v.(map...) ... }\<close>.
  The state is the panic raised so far, the result record and the effects so far; once
  a panic is raised nothing more of the function body runs.
\<close>

type_synonym extraction = "panic option \<times> CompleteEvent \<times> effect list"

definition reserved ::
  "gomap \<Rightarrow> string \<Rightarrow> (gomap \<Rightarrow> CompleteEvent \<Rightarrow> CompleteEvent) \<Rightarrow> (gomap \<Rightarrow> effect list) \<Rightarrow>
     extraction \<Rightarrow> extraction" where
  "reserved outputs key merge effs st =
     (case st of
        (Some p, c, es) \<Rightarrow> (Some p, c, es)
      | (None, c, es) \<Rightarrow>
          (case map_of outputs key of
             None \<Rightarrow> (None, c, es)
           | Some (JObject m) \<Rightarrow> (None, merge m c, es @ effs m)
           | Some _ \<Rightarrow> (Some InterfaceConversion, c, es)))"

text \<open>Lines 338 to 392, on the decrypted outputs of the first resource.\<close>

definition extract_outputs :: "world \<Rightarrow> gomap \<Rightarrow> CompleteEvent \<Rightarrow> extraction" where
  "extract_outputs w outputs c =
     (case reserved outputs ''_receivers'' (merge_receivers (decode_Receiver w)) (\<lambda>m. [])
             (reserved outputs ''_warps'' (merge_warps (decode_Warp w)) (\<lambda>m. [])
               (reserved outputs ''_hints'' merge_hints (\<lambda>m. [])
                 (reserved outputs ''_links'' merge_links (links_effects w) (None, c, [])))) of
        (Some p, c', es) \<Rightarrow> (Some p, c', es)
      | (None, c', es) \<Rightarrow> (None, merge_outputs outputs c', es))"

text \<open>
  Lines 325 to 393, the deferred function. The errors of \<^verbatim>\<open>stack.Export\<close> and of
  \<^verbatim>\<open>json.Unmarshal\<close> are dropped. \<^verbatim>\<open>decrypt\<close> changes the outputs of the first resource in
  place, so the resource list stored in the result holds the decrypted outputs. The
  inner \<^verbatim>\<open>defer\<close> hands the result to the callback whether the body returned or panicked;
  the types file is closed before that when the \<^verbatim>\<open>_links\<close> branch was entered.
\<close>

definition finalizer_body :: "world \<Rightarrow> CompleteEvent \<Rightarrow> extraction" where
  "finalizer_body w complete0 =
     (case deployment_Resources w of
        [] \<Rightarrow> (None, complete0, [])
      | r # rs \<Rightarrow>
          (case decrypt (json_Unmarshal w) (ResourceV3.Outputs r) of
             Inl p \<Rightarrow> (Some p, complete0, [])
           | Inr outputs \<Rightarrow>
               (case extract_outputs w outputs
                       (complete0\<lparr>Resources := r\<lparr>ResourceV3.Outputs := outputs\<rparr> # rs\<rparr>) of
                  (p, c, es) \<Rightarrow>
                    (p, c, es @ (case map_of outputs ''_links'' of
                                   Some (JObject links) \<Rightarrow> [TypesFileClose]
                                 | _ \<Rightarrow> [])))))"

definition finalizer :: "world \<Rightarrow> CompleteEvent \<Rightarrow> panic option \<times> effect list" where
  "finalizer w complete0 =
     (case finalizer_body w complete0 of
        (p, c, es) \<Rightarrow>
          (p, [StackExport] @ es @ [OnEvent (zero_StackEvent\<lparr>CompleteEvent := Some c\<rparr>)]))"

section \<open>Lock and state\<close>

text \<open>Lines 569 to 586. The loop of \<^verbatim>\<open>Unlock\<close> stops at the first file that cannot be
  removed, and \<^verbatim>\<open>Unlock\<close> returns there and where the directory cannot be read.\<close>

fun remove_files :: "(string \<Rightarrow> error option) \<Rightarrow> string list \<Rightarrow> error option \<times> effect list" where
  "remove_files rm [] = (None, [])"
| "remove_files rm (name # files) =
     (if HasPrefix name ''Pulumi'' then
        (case rm name of
           Some err \<Rightarrow> (Some err, [OsRemove name])
         | None \<Rightarrow> (case remove_files rm files of (r, es) \<Rightarrow> (r, OsRemove name # es)))
      else remove_files rm files)"

definition Unlock :: "world \<Rightarrow> error option \<times> effect list" where
  "Unlock w =
     (case os_ReadDir w of
        Inl err \<Rightarrow> (Some err, [OsReadDir])
      | Inr files \<Rightarrow>
          (case remove_files (os_Remove w) files of
             (Some err, es) \<Rightarrow> (Some err, OsReadDir # es)
           | (None, es) \<Rightarrow> (provider_Unlock w, OsReadDir # es @ [ProviderUnlock])))"

text \<open>Lines 588 to 610 and 612 to 620.\<close>

definition PullState :: "world \<Rightarrow> error option \<times> effect list" where
  "PullState w =
     (case os_RemoveAll w of
        Some err \<Rightarrow> (Some err, [OsRemoveAll])
      | None \<Rightarrow>
          (case os_MkdirAll w of
             Some err \<Rightarrow> (Some err, [OsRemoveAll, OsMkdirAll])
           | None \<Rightarrow> (provider_PullState w, [OsRemoveAll, OsMkdirAll, ProviderPullState])))"

definition PushState :: "world \<Rightarrow> error option \<times> effect list" where
  "PushState w = (provider_PushState w, [ProviderPushState])"

section \<open>\<^verbatim>\<open>Run\<close>\<close>

text \<open>
  A step of the function body: \<open>Some\<close> of the way the function is left at this step, or
  \<open>None\<close> when the body goes on, with the effects of the step. \<open>first_exit\<close> runs steps
  in order up to the first one that leaves.
\<close>

type_synonym step = "outcome option \<times> effect list"

fun first_exit :: "step list \<Rightarrow> step" where
  "first_exit [] = (None, [])"
| "first_exit ((Some out, es) # rest) = (Some out, es)"
| "first_exit ((None, es) # rest) = (case first_exit rest of (r, es') \<Rightarrow> (r, es @ es'))"

text \<open>\<^verbatim>\<open>if err != nil { return err }\<close>.\<close>

definition err_step :: "error option \<Rightarrow> step" where
  "err_step r = (map_option (\<lambda>err. Returned (Some err)) r, [])"

text \<open>The same for a call that is recorded among the effects.\<close>

definition call_step :: "error option \<Rightarrow> effect \<Rightarrow> step" where
  "call_step r e = (map_option (\<lambda>err. Returned (Some err)) r, [e])"

text \<open>\<^verbatim>\<open>xs[i]\<close> on a slice.\<close>

definition slice_at :: "'a list \<Rightarrow> nat \<Rightarrow> panic + 'a" where
  "slice_at xs i = (if i < length xs then Inr (xs ! i) else Inl IndexOutOfRange)"

text \<open>
  The configuration map of lines 250 to 265 and 497 to 512. The assertion
  \<^verbatim>\<open>args.(map[string]interface{})\<close> panics on a provider whose settings are not a map. A
  string setting becomes the entry \<^verbatim>\<open><provider>:<key>\<close>; the \<^verbatim>\<open>[]string\<close> case of the type
  switch matches no decoded JSON value, and every other setting is passed over. \<open>skip\<close>
  is the test that precedes the switch: \<^verbatim>\<open>cloudflare\<close> with \<^verbatim>\<open>accountId\<close> in \<^verbatim>\<open>Run\<close>, the key
  \<^verbatim>\<open>version\<close> in \<^verbatim>\<open>Import\<close>.
\<close>

definition provider_config ::
  "(string \<Rightarrow> string \<Rightarrow> bool) \<Rightarrow> string \<Rightarrow> gomap \<Rightarrow> (string \<times> string) list \<Rightarrow>
     (string \<times> string) list" where
  "provider_config skip provider args config =
     fold (\<lambda>(key, v) cfg.
             if skip provider key then cfg
             else (case v of
                     JString s \<Rightarrow> AList.update (provider @ '':'' @ key) s cfg
                   | _ \<Rightarrow> cfg))
       args config"

fun ConfigMap ::
  "(string \<Rightarrow> string \<Rightarrow> bool) \<Rightarrow> gomap \<Rightarrow> (string \<times> string) list \<Rightarrow>
     panic + (string \<times> string) list" where
  "ConfigMap skip [] config = Inr config"
| "ConfigMap skip ((provider, args) # rest) config =
     (case args of
        JObject m \<Rightarrow> ConfigMap skip rest (provider_config skip provider m config)
      | _ \<Rightarrow> Inl InterfaceConversion)"

definition config_step :: "world \<Rightarrow> (string \<Rightarrow> string \<Rightarrow> bool) \<Rightarrow> App \<Rightarrow> step" where
  "config_step w skip app =
     (case ConfigMap skip (Providers app) [] of
        Inl p \<Rightarrow> (Some (Panicked p), [])
      | Inr config \<Rightarrow>
          call_step (stack_SetAllConfig w) (SetAllConfig config))"

text \<open>Lines 178 to 201: the bundler, then \<^verbatim>\<open>buildResult.OutputFiles[0]\<close>.\<close>

definition build_step :: "world \<Rightarrow> step" where
  "build_step w =
     (case js_Build w of
        Inl err \<Rightarrow> (Some (Returned (Some err)), [])
      | Inr b \<Rightarrow>
          (case slice_at (OutputFiles b) 0 of
             Inl p \<Rightarrow> (Some (Panicked p), [])
           | Inr outfile \<Rightarrow> (None, [])))"

text \<open>
  Lines 203 to 218. Decoding the metafile into a map fails on text that is not JSON and
  on JSON that is neither an object nor \<^verbatim>\<open>null\<close>; \<^verbatim>\<open>meta["inputs"].(map...)\<close> panics unless
  that entry is a map; a key whose absolute path cannot be found is passed over.
\<close>

definition abs_files :: "(string \<Rightarrow> error + string) \<Rightarrow> string list \<Rightarrow> string list" where
  "abs_files Abs keys =
     concat (map (\<lambda>key. case Abs key of Inl err \<Rightarrow> [] | Inr absPath \<Rightarrow> [absPath]) keys)"

definition files_step :: "world \<Rightarrow> StackInput \<Rightarrow> step" where
  "files_step w input =
     (if has_OnFiles input then
        (case js_Build w of
           Inl err \<Rightarrow> (None, [])
         | Inr b \<Rightarrow>
             (case json_Unmarshal w (Metafile b) of
                Inl err \<Rightarrow> (Some (Returned (Some err)), [])
              | Inr v \<Rightarrow>
                  (case (case v of
                           JObject meta \<Rightarrow> Inr meta
                         | JNull \<Rightarrow> Inr []
                         | _ \<Rightarrow> Inl (ErrOther ''json: cannot unmarshal into Go value of type map[string]interface {}'')) of
                     Inl err \<Rightarrow> (Some (Returned (Some err)), [])
                   | Inr meta \<Rightarrow>
                       (case index meta ''inputs'' of
                          JObject inputs \<Rightarrow>
                            (None, [OnFiles (abs_files (filepath_Abs w) (map fst inputs))])
                        | _ \<Rightarrow> (Some (Panicked InterfaceConversion), [])))))
      else (None, []))"

text \<open>
  Lines 123 to 277, between the state pull and the creation of the event log. The
  environment map, the two JSON documents and the provider shim that these lines build
  go to the bundler and to the engine and are not read again; the steps are kept for the
  ways they leave the function.
\<close>

definition run_skip :: "string \<Rightarrow> string \<Rightarrow> bool" where
  "run_skip provider key = (provider = ''cloudflare'' \<and> key = ''accountId'')"

definition Run_setup :: "world \<Rightarrow> App \<Rightarrow> StackInput \<Rightarrow> step" where
  "Run_setup w app input =
     first_exit
       [err_step (provider_Passphrase w),
        err_step (map_option (ErrWrapped ''failed to list secrets'') (provider_GetSecrets w)),
        err_step (home_Env w),
        err_step (json_Marshal_cli w),
        err_step (json_Marshal_app w),
        build_step w,
        files_step w input,
        call_step (auto_NewLocalWorkspace w) NewLocalWorkspace,
        call_step (auto_UpsertStack w) UpsertStack,
        config_step w run_skip app,
        err_step (os_Create_eventlog w)]"

text \<open>
  Lines 279 to 424, once the event log exists. The consumer runs while the engine call
  blocks; the model lets it take everything \<open>select_results\<close> offers before the call
  returns, so that the deferred function reads a result record the consumer has
  finished with. A command other than the three of the \<^verbatim>\<open>switch\<close> calls no engine
  operation and leaves \<^verbatim>\<open>err\<close> at \<^verbatim>\<open>nil\<close>. The deferred calls run last to first: the
  extraction, then the closing of the event log. A panic of the deferred function
  replaces the return.
\<close>

definition engine_call :: "world \<Rightarrow> StackInput \<Rightarrow> CompleteEvent \<times> effect list \<times> error option" where
  "engine_call w input =
     (if Command input = ''up'' \<or> Command input = ''destroy'' \<or> Command input = ''refresh''
      then (case consume (json_Marshal_event w) (select_results w) new_complete of
              (c, es) \<Rightarrow> (c, EngineOp (Command input) # es, engine_result w))
      else (new_complete, [], None))"

definition Run_engine :: "world \<Rightarrow> StackInput \<Rightarrow> outcome \<times> effect list" where
  "Run_engine w input =
     (case engine_call w input of
        (c, es, err) \<Rightarrow>
          (case finalizer w c of
             (Some p, fes) \<Rightarrow> (Panicked p, es @ fes @ [EventLogClose])
           | (None, fes) \<Rightarrow>
               (Returned (if err \<noteq> None then Some ErrStackRunFailed else None),
                es @ fes @ [EventLogClose])))"

definition Run_pulled :: "world \<Rightarrow> App \<Rightarrow> StackInput \<Rightarrow> outcome \<times> effect list" where
  "Run_pulled w app input =
     (case Run_setup w app input of
        (Some out, es) \<Rightarrow> (out, es)
      | (None, es) \<Rightarrow> (case Run_engine w input of (out, es') \<Rightarrow> (out, es @ es')))"

text \<open>Lines 111 to 120: what the result of the state pull makes \<^verbatim>\<open>Run\<close> return, if
  anything.\<close>

definition pull_exit :: "error option \<Rightarrow> string \<Rightarrow> error option" where
  "pull_exit r command =
     (case r of
        None \<Rightarrow> None
      | Some err \<Rightarrow>
          if errors_Is err ErrStateNotFound
          then (if command \<noteq> ''up'' then Some ErrStageNotFound else None)
          else Some err)"

text \<open>Lines 111 to 424 with the deferred \<^verbatim>\<open>PushState\<close> of line 121, whose result is
  dropped.\<close>

definition Run_locked :: "world \<Rightarrow> App \<Rightarrow> StackInput \<Rightarrow> outcome \<times> effect list" where
  "Run_locked w app input =
     (case PullState w of
        (r, pes) \<Rightarrow>
          (case pull_exit r (Command input) of
             Some err \<Rightarrow> (Returned (Some err), pes)
           | None \<Rightarrow>
               (case Run_pulled w app input of
                  (out, es) \<Rightarrow> (out, pes @ es @ snd (PushState w)))))"

text \<open>Lines 96 to 424 with the deferred \<^verbatim>\<open>Unlock\<close> of line 109, whose result is dropped.\<close>

definition Run :: "world \<Rightarrow> App \<Rightarrow> StackInput \<Rightarrow> outcome \<times> effect list" where
  "Run w app input =
     (case provider_Lock w of
        Some err \<Rightarrow>
          (Returned (Some err),
           [OnEvent (zero_StackEvent\<lparr>StackCommandEvent :=
                       Some \<lparr>StackCommandEvent.Command = Command input\<rparr>\<rparr>),
            ProviderLock] @
           (if err = ErrLockExists
            then [OnEvent (zero_StackEvent\<lparr>ConcurrentUpdateEvent := Some ()\<rparr>)] else []))
      | None \<Rightarrow>
          (case Run_locked w app input of
             (out, es) \<Rightarrow>
               (out,
                [OnEvent (zero_StackEvent\<lparr>StackCommandEvent :=
                            Some \<lparr>StackCommandEvent.Command = Command input\<rparr>\<rparr>),
                 ProviderLock] @ es @ snd (Unlock w))))"

section \<open>\<^verbatim>\<open>Import\<close>\<close>

text \<open>
  \<^verbatim>\<open>strings.Split(s, sep)\<close> for a separator that is not empty: the text is cut at each
  occurrence of the separator found from left to right, the search going on behind the
  occurrence just found. \<open>acc\<close> holds the current piece, last character first.
\<close>

fun split_from :: "string \<Rightarrow> string \<Rightarrow> string \<Rightarrow> string list" where
  "split_from sep acc [] = [rev acc]"
| "split_from sep acc (c # cs) =
     (if prefix sep (c # cs) then rev acc # split_from sep [] (drop (length sep - 1) cs)
      else split_from sep (c # acc) cs)"

definition Split :: "string \<Rightarrow> string \<Rightarrow> string list" where
  "Split s sep = split_from sep [] s"

text \<open>
  Lines 434 to 450: the URN of the resource and of its parent. \<^verbatim>\<open>resource.ParseURN\<close>
  belongs to the SDK and is read from the world. With a parent, \<^verbatim>\<open>splits[1]\<close> is read
  without a test of the length; the error of the last \<^verbatim>\<open>ParseURN\<close> is overwritten before
  it is read, and the parent is then the empty URN that comes with the error.
\<close>

definition urnPrefix :: "App \<Rightarrow> string" where
  "urnPrefix app = ''urn:pulumi:'' @ Stage app @ ''::'' @ App.Name app @ ''::''"

definition urnFinal :: "ImportOptions \<Rightarrow> string" where
  "urnFinal input = ImportOptions.Type input @ ''::'' @ ImportOptions.Name input"

definition Import_urns :: "world \<Rightarrow> App \<Rightarrow> ImportOptions \<Rightarrow> outcome + string \<times> string" where
  "Import_urns w app input =
     (case resource_ParseURN w (urnPrefix app @ urnFinal input) of
        Inl err \<Rightarrow> Inl (Returned (Some err))
      | Inr urn \<Rightarrow>
          if ImportOptions.Parent input \<noteq> [] then
            (case slice_at (Split (ImportOptions.Parent input) ''::'') 0 of
               Inl p \<Rightarrow> Inl (Panicked p)
             | Inr parentType \<Rightarrow>
                 (case slice_at (Split (ImportOptions.Parent input) ''::'') 1 of
                    Inl p \<Rightarrow> Inl (Panicked p)
                  | Inr parentName \<Rightarrow>
                      (case resource_ParseURN w
                              (urnPrefix app @ parentType @ ''$'' @ urnFinal input) of
                         Inl err \<Rightarrow> Inl (Returned (Some err))
                       | Inr urn' \<Rightarrow>
                           Inr (urn',
                                case resource_ParseURN w
                                       (urnPrefix app @ parentType @ ''::'' @ parentName) of
                                  Inl err \<Rightarrow> []
                                | Inr parent \<Rightarrow> parent))))
          else Inr (urn, []))"

text \<open>
  Lines 529 to 547: the record with the URN is looked for from the front of the list; when
  there is none an empty record is appended and its index taken; the record at the
  index is then written. The type token is parsed last, and its error leaves \<^verbatim>\<open>Import\<close>
  before the changed list is handed to the engine.
\<close>

fun find_URN :: "string \<Rightarrow> ResourceV3 list \<Rightarrow> nat option" where
  "find_URN urn [] = None"
| "find_URN urn (r # rs) =
     (if urn = ResourceV3.URN r then Some 0 else map_option Suc (find_URN urn rs))"

definition Import_record ::
  "(string \<Rightarrow> error + string) \<Rightarrow> string \<Rightarrow> string \<Rightarrow> ImportOptions \<Rightarrow> ResourceV3 list \<Rightarrow>
     error + ResourceV3 list" where
  "Import_record ParseTypeToken urn parent input resources =
     (case (case find_URN urn resources of
              None \<Rightarrow> (resources @ [zero_ResourceV3], length resources)
            | Some i \<Rightarrow> (resources, i)) of
        (resources', existingIndex) \<Rightarrow>
          (case ParseTypeToken (ImportOptions.Type input) of
             Inl err \<Rightarrow> Inl err
           | Inr ty \<Rightarrow>
               Inr (resources'[existingIndex :=
                      (resources' ! existingIndex)
                        \<lparr>ResourceV3.URN := urn, ResourceV3.Parent := parent, Custom := True,
                         ResourceV3.ID := ImportOptions.ID input, ResourceV3.Type := ty\<rparr>])))"

definition import_skip :: "string \<Rightarrow> string \<Rightarrow> bool" where
  "import_skip provider key = (key = ''version'')"

text \<open>Lines 529 to 554 as a step: the changed list goes to \<^verbatim>\<open>stack.Import\<close>; the error of
  \<^verbatim>\<open>json.Marshal\<close> on line 549 is overwritten before it is read.\<close>

definition record_step :: "world \<Rightarrow> string \<Rightarrow> string \<Rightarrow> ImportOptions \<Rightarrow> step" where
  "record_step w urn parent input =
     (case Import_record (tokens_ParseTypeToken w) urn parent input (deployment_Resources w) of
        Inl err \<Rightarrow> (Some (Returned (Some err)), [])
      | Inr resources \<Rightarrow>
          call_step (stack_Import w) (StackImport resources))"

text \<open>Lines 461 to 562, after the lock is taken. Any error of the state pull leaves the
  function here; the state is pushed on the last line only.\<close>

definition Import_locked :: "world \<Rightarrow> App \<Rightarrow> ImportOptions \<Rightarrow> string \<Rightarrow> string \<Rightarrow> step" where
  "Import_locked w app input urn parent =
     first_exit
       [(map_option (\<lambda>err. Returned (Some err)) (fst (PullState w)), snd (PullState w)),
        err_step (provider_Passphrase w),
        err_step (home_Env w),
        call_step (auto_NewLocalWorkspace w) NewLocalWorkspace,
        call_step (auto_SelectStack w) SelectStack,
        config_step w import_skip app,
        call_step (stack_Export w) StackExport,
        err_step (Unmarshal_deployment w),
        record_step w urn parent input,
        (None, [Println ''imported'', Println ''refreshing'']),
        call_step (stack_Refresh w) (StackRefreshTarget urn),
        (Some (Returned (fst (PushState w))), snd (PushState w))]"

text \<open>Lines 433 to 563. The lock is taken and released through the provider package
  directly; the release is deferred and its result dropped.\<close>

definition Import :: "world \<Rightarrow> App \<Rightarrow> ImportOptions \<Rightarrow> outcome \<times> effect list" where
  "Import w app input =
     (case Import_urns w app input of
        Inl out \<Rightarrow> (out, [])
      | Inr (urn, parent) \<Rightarrow>
          (case provider_Lock w of
             Some err \<Rightarrow> (Returned (Some err), [Println urn, Println parent, ProviderLock])
           | None \<Rightarrow>
               (case Import_locked w app input urn parent of
                  (out, es) \<Rightarrow>
                    (case out of Some out' \<Rightarrow> out' | None \<Rightarrow> Returned None,
                     [Println urn, Println parent, ProviderLock] @ es @ [ProviderUnlock]))))"

section \<open>Vocabulary for the statements about a run\<close>

text \<open>An error diagnostic whose message starts with \<^verbatim>\<open>update failed\<close>: the generic
  summary of a failed operation.\<close>

definition generic_failure :: "EngineEvent \<Rightarrow> bool" where
  "generic_failure event =
     (case DiagnosticEvent event of
        None \<Rightarrow> False
      | Some d \<Rightarrow> Severity d = ''error'' \<and> HasPrefix (DiagnosticEvent.Message d) ''update failed'')"

text \<open>What an event adds to the error list, in the words of the specification: an error
  diagnostic that is not the generic summary adds its message and URN, anything else
  adds nothing.\<close>

definition error_of :: "EngineEvent \<Rightarrow> Error list" where
  "error_of event =
     (case DiagnosticEvent event of
        None \<Rightarrow> []
      | Some d \<Rightarrow>
          if Severity d = ''error'' \<and> \<not> HasPrefix (DiagnosticEvent.Message d) ''update failed''
          then [\<lparr>Error.Message = DiagnosticEvent.Message d, Error.URN = DiagnosticEvent.URN d\<rparr>]
          else [])"

text \<open>The events the consumer takes from the channel before it stops: those that come
  before the first cancellation or closing, up to and including the first event that is
  not the generic summary and cannot be serialised.\<close>

fun received :: "(EngineEvent \<Rightarrow> error + string) \<Rightarrow> select_result list \<Rightarrow> EngineEvent list" where
  "received M [] = []"
| "received M (ctx_Done # rest) = []"
| "received M (stream_closed # rest) = []"
| "received M (stream_event event # rest) =
     event # (if generic_failure event then received M rest
              else (case M event of Inl err \<Rightarrow> [] | Inr bytes \<Rightarrow> received M rest))"

text \<open>The line an event leaves in the event log: its serialisation and a newline, or
  nothing when it cannot be serialised.\<close>

definition log_line :: "(EngineEvent \<Rightarrow> error + string) \<Rightarrow> EngineEvent \<Rightarrow> string" where
  "log_line M event = (case M event of Inl err \<Rightarrow> [] | Inr bytes \<Rightarrow> bytes @ newline)"

text \<open>The events handed to the caller's callback and the bytes written to the event
  log, read off the effects.\<close>

definition callback_events :: "effect list \<Rightarrow> StackEvent list" where
  "callback_events es = concat (map (\<lambda>e. case e of OnEvent ev \<Rightarrow> [ev] | _ \<Rightarrow> []) es)"

definition event_log :: "effect list \<Rightarrow> string" where
  "event_log es = concat (map (\<lambda>e. case e of EventLogWrite bytes \<Rightarrow> bytes | _ \<Rightarrow> []) es)"

text \<open>The result records handed to the callback.\<close>

definition complete_events :: "effect list \<Rightarrow> CompleteEvent list" where
  "complete_events es =
     concat (map (\<lambda>ev. case CompleteEvent ev of Some c \<Rightarrow> [c] | None \<Rightarrow> []) (callback_events es))"

text \<open>A serialiser for the examples.\<close>

definition Marshal_examples :: "EngineEvent \<Rightarrow> error + string" where
  \<open>Marshal_examples event =
     (if Sequence event < 0 then Inl (ErrOther ''json: unsupported value'')
      else Inr ''{"sequence":0}'')\<close>

definition diagnostic :: "int \<Rightarrow> string \<Rightarrow> string \<Rightarrow> string \<Rightarrow> EngineEvent" where
  "diagnostic n severity message urn =
     zero_EngineEvent
       \<lparr>Sequence := n,
        DiagnosticEvent :=
          Some \<lparr>DiagnosticEvent.URN = urn, DiagnosticEvent.Message = message,
                Severity = severity\<rparr>\<rparr>"

text \<open>What an event that is not the generic summary leaves in the result record.\<close>

definition recorded :: "EngineEvent \<Rightarrow> CompleteEvent \<Rightarrow> CompleteEvent" where
  "recorded event c =
     c\<lparr>Errors := Errors c @ error_of event,
       Finished := (Finished c \<or> SummaryEvent event \<noteq> None)\<rparr>"

text \<open>The run reaches the engine stage: the lock is taken, the state pull lets the run go
  on, and no step between the pull and the creation of the event log leaves.\<close>

definition reaches_engine :: "world \<Rightarrow> App \<Rightarrow> StackInput \<Rightarrow> bool" where
  "reaches_engine w app input =
     (provider_Lock w = None \<and> pull_exit (fst (PullState w)) (Command input) = None \<and>
      fst (Run_setup w app input) = None)"

text \<open>The calls that touch the engine.\<close>

fun touches_engine :: "effect \<Rightarrow> bool" where
  "touches_engine NewLocalWorkspace = True"
| "touches_engine UpsertStack = True"
| "touches_engine SelectStack = True"
| "touches_engine (SetAllConfig c) = True"
| "touches_engine (EngineOp c) = True"
| "touches_engine StackExport = True"
| "touches_engine (StackImport r) = True"
| "touches_engine (StackRefreshTarget u) = True"
| "touches_engine e = False"

definition engine_calls :: "effect list \<Rightarrow> effect list" where
  "engine_calls es = filter touches_engine es"

text \<open>The announcement \<^verbatim>\<open>Run\<close> starts with.\<close>

definition command_event :: "StackInput \<Rightarrow> StackEvent" where
  "command_event input =
     zero_StackEvent\<lparr>StackCommandEvent := Some \<lparr>StackCommandEvent.Command = Command input\<rparr>\<rparr>"

text \<open>A world in which every collaborator succeeds: the working directory holds two
  files of the engine, the engine emits nothing and closes the channel, and the exported
  state has no resource.\<close>

definition calm :: world where
  "calm =
     \<lparr>provider_Lock = None, provider_Unlock = None, provider_PullState = None,
      provider_PushState = None, provider_Passphrase = None, provider_GetSecrets = None,
      home_Env = None,
      os_ReadDir = Inr [''Pulumi.dev.yaml'', ''Pulumi.yaml'', ''event.log''],
      os_Remove = (\<lambda>name. None), os_RemoveAll = None, os_MkdirAll = None,
      os_Create_eventlog = None, os_Create_types = None,
      filepath_Abs = (\<lambda>key. Inr (''/'' @ key)),
      json_Marshal_cli = None, json_Marshal_app = None,
      json_Marshal_event = Marshal_examples, json_Unmarshal = Unmarshal_examples,
      decode_Warp = (\<lambda>v. \<lparr>FunctionID = [], Runtime = [], Handler = [], Bundle = [],
                            Properties = [], Warp.Links = [], Warp.Environment = []\<rparr>),
      decode_Receiver = (\<lambda>v. \<lparr>Receiver.Links = [], Receiver.Environment = []\<rparr>),
      inferTypes = (\<lambda>links indent. ''{}''),
      js_Build = Inr \<lparr>OutputFiles = [''out.mjs''], Metafile = ''{}''\<rparr>,
      auto_NewLocalWorkspace = None, auto_UpsertStack = None, auto_SelectStack = None,
      stack_SetAllConfig = None,
      select_results = [stream_closed], engine_result = None,
      stack_Export = None, Unmarshal_deployment = None, deployment_Resources = [],
      stack_Import = None, stack_Refresh = None,
      resource_ParseURN = Inr, tokens_ParseTypeToken = Inr\<rparr>"

definition app_example :: App where
  "app_example =
     \<lparr>App.Name = ''shop'', Stage = ''dev'',
      Providers = [(''aws'', JObject [(''region'', JString ''us-east-1'')])]\<rparr>"

definition up_input :: StackInput where
  "up_input = \<lparr>has_OnFiles = False, Command = ''up'', Dev = False\<rparr>"

text \<open>Worlds and inputs for the examples: an engine that reports two errors and the
  generic summary and then fails, with one resource in the exported state; a lock held
  by someone else; a stage with no state; a working directory with a file that cannot
  be removed.\<close>

definition outputs_example :: gomap where
  "outputs_example =
     [(''apiUrl'', JString ''https://api.example.com''),
      (''_hints'', JObject [(''web'', JString ''https://example.com''), (''n'', JNumber 1)]),
      (''_links'', JObject [(''db'', JObject [(''plaintext'', JString ''7'')])]),
      (''_internal'', JBool True)]"

definition failing :: world where
  "failing =
     calm\<lparr>select_results :=
            [stream_event (diagnostic 1 ''error'' ''bucket name taken'' ''urn:bucket''),
             stream_event (diagnostic 2 ''error'' ''role not found'' ''urn:role''),
             stream_event (diagnostic 3 ''error'' ''update failed'' []),
             stream_closed],
          engine_result := Some (ErrOther ''exit status 255''),
          deployment_Resources :=
            [zero_ResourceV3\<lparr>ResourceV3.URN := ''urn:root'',
                              ResourceV3.Outputs := outputs_example\<rparr>]\<rparr>"

definition locked_elsewhere :: world where
  "locked_elsewhere = calm\<lparr>provider_Lock := Some ErrLockExists\<rparr>"

definition no_state :: world where
  "no_state = calm\<lparr>provider_PullState := Some ErrStateNotFound\<rparr>"

definition pull_broken :: world where
  "pull_broken = calm\<lparr>provider_PullState := Some (ErrOther ''access denied'')\<rparr>"

definition stuck_file :: world where
  "stuck_file =
     calm\<lparr>os_Remove :=
            (\<lambda>name. if name = ''Pulumi.yaml'' then Some (ErrOther ''permission denied'')
                     else None)\<rparr>"

definition destroy_input :: StackInput where
  "destroy_input = \<lparr>has_OnFiles = False, Command = ''destroy'', Dev = False\<rparr>"

text \<open>An adoption: a bucket brought under a state that holds the root resource only, with
  no parent, with a well-formed parent, and with a parent that has no separator.\<close>

definition root_resource :: ResourceV3 where
  "root_resource =
     zero_ResourceV3\<lparr>ResourceV3.URN := ''urn:pulumi:dev::shop::pulumi:pulumi:Stack::shop-dev'',
                      ResourceV3.Type := ''pulumi:pulumi:Stack''\<rparr>"

definition adopting :: world where
  "adopting = calm\<lparr>deployment_Resources := [root_resource]\<rparr>"

definition bucket_import :: ImportOptions where
  "bucket_import =
     \<lparr>ImportOptions.Type = ''aws:s3/bucket:Bucket'', ImportOptions.Name = ''assets'',
      ImportOptions.ID = ''my-bucket'', ImportOptions.Parent = []\<rparr>"

definition bucket_record :: ResourceV3 where
  "bucket_record =
     \<lparr>ResourceV3.URN = ''urn:pulumi:dev::shop::aws:s3/bucket:Bucket::assets'', Custom = True,
      ResourceV3.ID = ''my-bucket'', ResourceV3.Type = ''aws:s3/bucket:Bucket'',
      ResourceV3.Outputs = [], ResourceV3.Parent = []\<rparr>"

text \<open>\<^verbatim>\<open>strings.Contains(s, substr)\<close>.\<close>

definition Contains :: "string \<Rightarrow> string \<Rightarrow> bool" where
  "Contains s substr = (\<exists>a b. s = a @ substr @ b)"

definition child_import :: ImportOptions where
  "child_import = bucket_import\<lparr>ImportOptions.Parent := ''sst:aws:Bucket::Assets''\<rparr>"

definition orphan_import :: ImportOptions where
  "orphan_import = bucket_import\<lparr>ImportOptions.Parent := ''Assets''\<rparr>"

section \<open>Properties of \<^verbatim>\<open>decrypt\<close>\<close>

lemma map_sum_Inr_iff:
  "map_sum id JObject x = Inr v' \<longleftrightarrow> (\<exists>obj'. x = Inr obj' \<and> v' = JObject obj')"
  by (cases x) auto

lemma decrypt_keys: "decrypt U m = Inr m' \<Longrightarrow> map fst m' = map fst m"
  by (induction m arbitrary: m') (auto split: sum.splits)

lemma decrypt_map_of:
  "decrypt U m = Inr m' \<Longrightarrow> map_of m k = Some v \<Longrightarrow>
     \<exists>v'. decrypt_entry U v = Inr v' \<and> map_of m' k = Some v'"
  by (induction m arbitrary: m') (auto split: sum.splits if_splits)

lemma decrypt_map_of_None:
  "decrypt U m = Inr m' \<Longrightarrow> map_of m k = None \<Longrightarrow> map_of m' k = None"
  by (induction m arbitrary: m') (auto split: sum.splits if_splits)

lemma decrypt_index_plaintext:
  assumes "decrypt U m = Inr m'" "\<not> wrapper m"
  shows "\<not> wrapper m'"
proof (cases "map_of m ''plaintext''")
  case None
  then show ?thesis using decrypt_map_of_None[OF assms(1) None] by (simp add: wrapper_def index_def)
next
  case (Some v)
  with assms(2) have "v = JNull" by (simp add: wrapper_def index_def)
  with decrypt_map_of[OF assms(1) Some] show ?thesis by (auto simp add: wrapper_def index_def)
qed

lemma no_plaintext_id:
  "list_all (\<lambda>kv. no_plaintext (snd kv)) m \<Longrightarrow> decrypt U m = Inr m"
  "no_plaintext v \<Longrightarrow> decrypt_entry U v = Inr v"
proof (induction U m and U v rule: decrypt_decrypt_entry.induct)
  case (3 U val)
  then show ?case
    by (auto simp: index_def map_of_eq_None_iff[THEN iffD2] split: option.splits)
qed auto

lemma decrypt_entry_at:
  "decrypt U m = Inr m' \<Longrightarrow> entry_at p m = Some v \<Longrightarrow>
     (case v of
        JObject obj \<Rightarrow>
          if wrapper obj
          then \<exists>s. index obj ''plaintext'' = JString s \<and> entry_at p m' = Some (parsed_any U s)
          else \<exists>obj'. decrypt U obj = Inr obj' \<and> entry_at p m' = Some (JObject obj')
      | _ \<Rightarrow> entry_at p m' = Some v)"
proof (induction p m arbitrary: m' rule: entry_at.induct)
  case (1 m)
  then show ?case by simp
next
  case (2 k m)
  then obtain v' where v': "decrypt_entry U v = Inr v'" "map_of m' k = Some v'"
    using decrypt_map_of by fastforce
  then show ?case
    by (cases v) (auto simp: wrapper_def map_sum_Inr_iff split: json.splits if_splits)
next
  case (3 k k2 ks m)
  from "3.prems"(2) obtain obj where obj: "map_of m k = Some (JObject obj)" "\<not> wrapper obj"
      "entry_at (k2 # ks) obj = Some v"
    by (auto split: option.splits json.splits if_splits)
  from decrypt_map_of[OF "3.prems"(1) obj(1)] obtain v' where
    v': "decrypt_entry U (JObject obj) = Inr v'" "map_of m' k = Some v'" by blast
  with obj(2) obtain obj' where obj': "decrypt U obj = Inr obj'" "v' = JObject obj'"
    by (auto simp: wrapper_def map_sum_Inr_iff)
  have nw: "\<not> wrapper obj'" using decrypt_index_plaintext[OF obj'(1) obj(2)] .
  have eq: "entry_at (k # k2 # ks) m' = entry_at (k2 # ks) obj'"
    using v'(2) obj'(2) nw by simp
  from "3.IH"[OF obj(1) _ obj(2) obj'(1) obj(3)] show ?case
    unfolding eq by simp
qed

lemma visits_shape:
  "q \<in> set (decrypt_visits p m) \<Longrightarrow> \<exists>k r. q = p @ k # r \<and> k \<in> fst ` set m"
  "q \<in> set (entry_visits p v) \<Longrightarrow> \<exists>k r. q = p @ k # r"
proof (induction p m and p v arbitrary: q and q rule: decrypt_visits_entry_visits.induct)
  case (2 p key v rest)
  from "2.prems" consider "q = p @ [key]" | "q \<in> set (entry_visits (p @ [key]) v)"
    | "q \<in> set (decrypt_visits p rest)" by auto
  then show ?case
  proof cases
    case 1 then show ?thesis by auto
  next
    case 2
    from "2.IH"(1)[OF this] show ?thesis by auto
  next
    case 3
    from "2.IH"(2)[OF this] show ?thesis by auto
  qed
next
  case (3 p val)
  then show ?case by (auto split: if_splits) blast
qed auto

lemma visits_distinct:
  "distinct (map fst m) \<Longrightarrow> list_all (\<lambda>kv. unique_keys (snd kv)) m \<Longrightarrow> distinct (decrypt_visits p m)"
  "unique_keys v \<Longrightarrow> distinct (entry_visits p v)"
proof (induction p m and p v rule: decrypt_visits_entry_visits.induct)
  case (2 p key v rest)
  have a: "p @ [key] \<notin> set (entry_visits (p @ [key]) v)"
    using visits_shape(2)[of "p @ [key]" "p @ [key]" v] by auto
  have b: "p @ [key] \<notin> set (decrypt_visits p rest)"
    using visits_shape(1)[of "p @ [key]" p rest] "2.prems"(1) by auto
  have c: "set (entry_visits (p @ [key]) v) \<inter> set (decrypt_visits p rest) = {}"
  proof (rule ccontr)
    assume "\<not> ?thesis"
    then obtain q where q: "q \<in> set (entry_visits (p @ [key]) v)" "q \<in> set (decrypt_visits p rest)"
      by auto
    from visits_shape(2)[OF q(1)] obtain k r where 1: "q = (p @ [key]) @ k # r" by blast
    from visits_shape(1)[OF q(2)] obtain k' r' where 2: "q = p @ k' # r'" "k' \<in> fst ` set rest" by blast
    from 1 2 have "k' = key" by simp
    with 2(2) "2.prems"(1) show False by auto
  qed
  from 2 a b c show ?case by auto
qed auto

lemma entry_at_Cons:
  "entry_at (k # ks) ((key, v) # rest) =
     (if k = key then
        (if ks = [] then Some v
         else (case v of JObject obj \<Rightarrow> if wrapper obj then None else entry_at ks obj | _ \<Rightarrow> None))
      else entry_at (k # ks) rest)"
  by (cases ks) auto

lemma entry_at_key: "entry_at (k # ks) m \<noteq> None \<Longrightarrow> k \<in> fst ` set m"
  by (cases ks) (force split: option.splits dest!: map_of_SomeD)+

lemma visits_iff:
  "distinct (map fst m) \<Longrightarrow> list_all (\<lambda>kv. unique_keys (snd kv)) m \<Longrightarrow>
     q \<in> set (decrypt_visits p m) \<longleftrightarrow> (\<exists>r. q = p @ r \<and> entry_at r m \<noteq> None)"
  "unique_keys v \<Longrightarrow>
     q \<in> set (entry_visits p v) \<longleftrightarrow>
       (\<exists>obj r. v = JObject obj \<and> \<not> wrapper obj \<and> q = p @ r \<and> entry_at r obj \<noteq> None)"
proof (induction p m and p v arbitrary: q and q rule: decrypt_visits_entry_visits.induct)
  case (1 p)
  have "entry_at r [] = None" for r
  proof (cases r)
    case (Cons k ks)
    then show ?thesis by (cases ks) auto
  qed simp
  then show ?case by simp
next
  case (2 p key v rest)
  have uv: "unique_keys v" and dr: "distinct (map fst rest)"
    and ur: "list_all (\<lambda>kv. unique_keys (snd kv)) rest" and fresh: "key \<notin> fst ` set rest"
    using "2.prems" by auto
  note ih1 = "2.IH"(1)[OF uv] and ih2 = "2.IH"(2)[OF dr ur]
  show ?case
  proof
    assume "q \<in> set (decrypt_visits p ((key, v) # rest))"
    then consider "q = p @ [key]" | "q \<in> set (entry_visits (p @ [key]) v)"
      | "q \<in> set (decrypt_visits p rest)" by auto
    then show "\<exists>r. q = p @ r \<and> entry_at r ((key, v) # rest) \<noteq> None"
    proof cases
      case 1
      then have "q = p @ [key] \<and> entry_at [key] ((key, v) # rest) \<noteq> None" by simp
      then show ?thesis by blast
    next
      case 2
      with ih1 obtain obj r where o: "v = JObject obj" "\<not> wrapper obj" "q = (p @ [key]) @ r"
        "entry_at r obj \<noteq> None" by blast
      then have "r \<noteq> []" by auto
      with o have "q = p @ (key # r) \<and> entry_at (key # r) ((key, v) # rest) \<noteq> None"
        by (simp add: entry_at_Cons)
      then show ?thesis by blast
    next
      case 3
      with ih2 obtain r where r: "q = p @ r" "entry_at r rest \<noteq> None" by blast
      then obtain k ks where ks: "r = k # ks" by (cases r) auto
      with r(2) entry_at_key have "k \<in> fst ` set rest" by blast
      with fresh have "k \<noteq> key" by auto
      with r ks have "q = p @ r \<and> entry_at r ((key, v) # rest) \<noteq> None"
        by (simp add: entry_at_Cons)
      then show ?thesis by blast
    qed
  next
    assume "\<exists>r. q = p @ r \<and> entry_at r ((key, v) # rest) \<noteq> None"
    then obtain r where r: "q = p @ r" "entry_at r ((key, v) # rest) \<noteq> None" by blast
    then obtain k ks where ks: "r = k # ks" by (cases r) auto
    show "q \<in> set (decrypt_visits p ((key, v) # rest))"
    proof (cases "k = key")
      case True
      show ?thesis
      proof (cases "ks = []")
        case True
        with \<open>k = key\<close> r ks show ?thesis by simp
      next
        case False
        with \<open>k = key\<close> r(2) ks obtain obj where "v = JObject obj" "\<not> wrapper obj"
          "entry_at ks obj \<noteq> None"
          by (auto simp: entry_at_Cons split: json.splits if_splits)
        moreover have "q = (p @ [key]) @ ks" using r(1) ks True by simp
        ultimately have "q \<in> set (entry_visits (p @ [key]) v)" using ih1 by blast
        then show ?thesis by simp
      qed
    next
      case False
      with r ks have "entry_at r rest \<noteq> None" by (simp add: entry_at_Cons)
      with r(1) ih2 have "q \<in> set (decrypt_visits p rest)" by blast
      then show ?thesis by simp
    qed
  qed
next
  case (3 p val)
  then show ?case by (auto simp: wrapper_def)
qed auto

lemma decrypt_returns:
  "distinct (map fst m) \<Longrightarrow> list_all (\<lambda>kv. unique_keys (snd kv)) m \<Longrightarrow>
     (\<forall>p obj. entry_at p m = Some (JObject obj) \<longrightarrow> wrapper obj \<longrightarrow>
        (\<exists>s. index obj ''plaintext'' = JString s)) \<Longrightarrow> \<exists>m'. decrypt U m = Inr m'"
  "unique_keys v \<Longrightarrow>
     (\<forall>obj. v = JObject obj \<longrightarrow>
        (if wrapper obj then \<exists>s. index obj ''plaintext'' = JString s
         else \<forall>p o2. entry_at p obj = Some (JObject o2) \<longrightarrow> wrapper o2 \<longrightarrow>
                (\<exists>s. index o2 ''plaintext'' = JString s))) \<Longrightarrow> \<exists>v'. decrypt_entry U v = Inr v'"
proof (induction U m and U v rule: decrypt_decrypt_entry.induct)
  case (2 U key v rest)
  let ?m = "(key, v) # rest"
  note cond = "2.prems"(3)
  have fresh: "key \<notin> fst ` set rest" using "2.prems"(1) by auto
  have "\<exists>v'. decrypt_entry U v = Inr v'"
  proof (rule "2.IH"(1))
    show "unique_keys v" using "2.prems"(2) by simp
    show "\<forall>obj. v = JObject obj \<longrightarrow>
        (if wrapper obj then \<exists>s. index obj ''plaintext'' = JString s
         else \<forall>p o2. entry_at p obj = Some (JObject o2) \<longrightarrow> wrapper o2 \<longrightarrow>
                (\<exists>s. index o2 ''plaintext'' = JString s))"
    proof (intro allI impI)
      fix obj assume v: "v = JObject obj"
      show "if wrapper obj then \<exists>s. index obj ''plaintext'' = JString s
         else \<forall>p o2. entry_at p obj = Some (JObject o2) \<longrightarrow> wrapper o2 \<longrightarrow>
                (\<exists>s. index o2 ''plaintext'' = JString s)"
      proof (cases "wrapper obj")
        case True
        have "entry_at [key] ?m = Some (JObject obj)" using v by simp
        with cond True show ?thesis by metis
      next
        case False
        have "\<exists>s. index o2 ''plaintext'' = JString s"
          if "entry_at p obj = Some (JObject o2)" "wrapper o2" for p o2
        proof -
          from that(1) have "p \<noteq> []" by auto
          with that(1) v False have "entry_at (key # p) ?m = Some (JObject o2)"
            by (simp add: entry_at_Cons)
          with cond that(2) show ?thesis by blast
        qed
        with False show ?thesis by auto
      qed
    qed
  qed
  then obtain v' where v': "decrypt_entry U v = Inr v'" by blast
  have "\<exists>m'. decrypt U rest = Inr m'"
  proof (rule "2.IH"(2)[OF v'])
    show "distinct (map fst rest)" "list_all (\<lambda>kv. unique_keys (snd kv)) rest"
      using "2.prems" by auto
    show "\<forall>p obj. entry_at p rest = Some (JObject obj) \<longrightarrow> wrapper obj \<longrightarrow>
        (\<exists>s. index obj ''plaintext'' = JString s)"
    proof (intro allI impI)
      fix p obj assume a: "entry_at p rest = Some (JObject obj)" "wrapper obj"
      then obtain k ks where p: "p = k # ks" by (cases p) auto
      with a(1) entry_at_key[of k ks rest] have "k \<in> fst ` set rest" by auto
      with fresh have "k \<noteq> key" by auto
      with a(1) p have "entry_at p ?m = Some (JObject obj)" by (simp add: entry_at_Cons)
      with cond a(2) show "\<exists>s. index obj ''plaintext'' = JString s" by blast
    qed
  qed
  with v' show ?case by auto
next
  case (3 U val)
  show ?case
  proof (cases "wrapper val")
    case True
    with "3.prems"(2) obtain s where "index val ''plaintext'' = JString s" by auto
    then show ?thesis by simp
  next
    case False
    then have n: "\<not> index val ''plaintext'' \<noteq> JNull" by (simp add: wrapper_def)
    have "\<exists>m'. decrypt U val = Inr m'"
      using "3.IH"[OF n] "3.prems" False by auto
    with n show ?thesis by auto
  qed
qed auto

text \<open>
  Claim C6, as the code has it. \<^verbatim>\<open>decrypt\<close> returns on every map in which each wrapper
  reached through maps holds a string in \<^verbatim>\<open>plaintext\<close>. When it returns, the keys are
  those of the input, and for every entry reached from the input through maps that are
  not wrappers: a map with a non-nil \<^verbatim>\<open>plaintext\<close> has given way to the value parsed from
  that string (\<^verbatim>\<open>nil\<close> when the string does not parse); any other map has given way to its
  own decryption; a value of any other kind, a slice with all it holds included, is
  unchanged. The loop bodies run once for each such entry and for nothing else: the
  values inside slices are not visited.
\<close>

theorem decrypt_through_maps:
  "(unique_keys (JObject m) \<and>
      (\<forall>p obj. entry_at p m = Some (JObject obj) \<and> wrapper obj \<longrightarrow>
         (\<exists>s. index obj ''plaintext'' = JString s)) \<longrightarrow>
      (\<exists>m'. decrypt U m = Inr m')) \<and>
   (\<forall>m'. decrypt U m = Inr m' \<longrightarrow>
      map fst m' = map fst m \<and>
      (\<forall>p v. entry_at p m = Some v \<longrightarrow>
         (case v of
            JObject obj \<Rightarrow>
              if wrapper obj
              then \<exists>s. index obj ''plaintext'' = JString s \<and>
                     entry_at p m' = Some (parsed_any U s)
              else \<exists>obj'. decrypt U obj = Inr obj' \<and> entry_at p m' = Some (JObject obj')
          | _ \<Rightarrow> entry_at p m' = Some v)) \<and>
      (unique_keys (JObject m) \<longrightarrow>
         distinct (decrypt_visits [] m) \<and>
         set (decrypt_visits [] m) = {p. entry_at p m \<noteq> None}))"
proof (intro conjI allI impI)
  assume a: "unique_keys (JObject m) \<and>
      (\<forall>p obj. entry_at p m = Some (JObject obj) \<and> wrapper obj \<longrightarrow>
         (\<exists>s. index obj ''plaintext'' = JString s))"
  then have "distinct (map fst m)" "list_all (\<lambda>kv. unique_keys (snd kv)) m" by simp_all
  then show "\<exists>m'. decrypt U m = Inr m'"
    using a by (intro decrypt_returns(1)) blast+
next
  fix m' assume "decrypt U m = Inr m'"
  then show "map fst m' = map fst m" by (rule decrypt_keys)
next
  fix m' p v assume "decrypt U m = Inr m'" "entry_at p m = Some v"
  then show "case v of
            JObject obj \<Rightarrow>
              if wrapper obj
              then \<exists>s. index obj ''plaintext'' = JString s \<and>
                     entry_at p m' = Some (parsed_any U s)
              else \<exists>obj'. decrypt U obj = Inr obj' \<and> entry_at p m' = Some (JObject obj')
          | _ \<Rightarrow> entry_at p m' = Some v"
    by (rule decrypt_entry_at)
next
  fix m' assume "unique_keys (JObject m)"
  then show "distinct (decrypt_visits [] m)" by (simp add: visits_distinct(1))
next
  fix m' assume "unique_keys (JObject m)"
  then have "distinct (map fst m)" "list_all (\<lambda>kv. unique_keys (snd kv)) m" by simp_all
  from visits_iff(1)[OF this, of _ "[]"]
  show "set (decrypt_visits [] m) = {p. entry_at p m \<noteq> None}" by auto
qed

theorem decrypt_through_maps_witness:
  \<open>decrypt Unmarshal_examples
      [(''a'', JObject [(''plaintext'', JString ''{"b":1}'')]),
       (''n'', JObject [(''k'', JArray [JObject [(''plaintext'', JString ''7'')]])])] =
    Inr [(''a'', JObject [(''b'', JNumber 1)]),
         (''n'', JObject [(''k'', JArray [JObject [(''plaintext'', JString ''7'')]])])] \<and>
   entry_at [''n'', ''k'']
      [(''a'', JObject [(''plaintext'', JString ''{"b":1}'')]),
       (''n'', JObject [(''k'', JArray [JObject [(''plaintext'', JString ''7'')]])])] =
    Some (JArray [JObject [(''plaintext'', JString ''7'')]]) \<and>
   entry_at [''n'', ''k'']
      [(''a'', JObject [(''b'', JNumber 1)]),
       (''n'', JObject [(''k'', JArray [JObject [(''plaintext'', JString ''7'')]])])] =
    Some (JArray [JObject [(''plaintext'', JString ''7'')]]) \<and>
   unique_keys (JObject
      [(''a'', JObject [(''plaintext'', JString ''{"b":1}'')]),
       (''n'', JObject [(''k'', JArray [JObject [(''plaintext'', JString ''7'')]])])]) \<and>
   distinct (decrypt_visits []
      [(''a'', JObject [(''plaintext'', JString ''{"b":1}'')]),
       (''n'', JObject [(''k'', JArray [JObject [(''plaintext'', JString ''7'')]])])])\<close>
proof -
  let ?m = \<open>[(''a'', JObject [(''plaintext'', JString ''{"b":1}'')]),
       (''n'', JObject [(''k'', JArray [JObject [(''plaintext'', JString ''7'')]])])]\<close>
  let ?m' = \<open>[(''a'', JObject [(''b'', JNumber 1)]),
         (''n'', JObject [(''k'', JArray [JObject [(''plaintext'', JString ''7'')]])])]\<close>
  have d: "decrypt Unmarshal_examples ?m = Inr ?m'"
    by (simp add: index_def parsed_any_def Unmarshal_examples_def)
  have e: "entry_at [''n'', ''k''] ?m = Some (JArray [JObject [(''plaintext'', JString ''7'')]])"
    by (simp add: wrapper_def index_def)
  have u: "unique_keys (JObject ?m)" by simp
  from decrypt_through_maps[of ?m Unmarshal_examples] e u d show ?thesis
    by (simp add: wrapper_def index_def)
qed

text \<open>The claim as worded fails on a wrapper inside a slice: it is neither replaced nor
  visited.\<close>

theorem decrypt_skips_slices_counterexample:
  \<open>decrypt Unmarshal_examples [(''a'', JArray [JObject [(''plaintext'', JString ''7'')]])] =
     Inr [(''a'', JArray [JObject [(''plaintext'', JString ''7'')]])] \<and>
   decrypt Unmarshal_examples [(''a'', JArray [JObject [(''plaintext'', JString ''7'')]])] \<noteq>
     Inr [(''a'', JArray [JNumber 7])] \<and>
   decrypt_visits [] [(''a'', JArray [JObject [(''plaintext'', JString ''7'')]])] = [[''a'']]\<close>
  by simp

text \<open>
  Claim C7. On a map none of whose values holds a map with a \<^verbatim>\<open>plaintext\<close> key,
  \<^verbatim>\<open>decrypt\<close> returns its argument, so that decrypting twice is decrypting once; a wrapper
  found at any depth through maps that are not wrappers is replaced by the value parsed
  from its string; and with a decoder that reads \<^verbatim>\<open>{"b":1}\<close> as the object it denotes,
  \<^verbatim>\<open>{"a":{"plaintext":"{\"b\":1}"}}\<close> becomes \<^verbatim>\<open>{"a":{"b":1}}\<close>.
\<close>

theorem decrypt_idempotent_unwraps:
  \<open>(list_all (\<lambda>kv. no_plaintext (snd kv)) m \<longrightarrow>
      decrypt U m = Inr m \<and>
      (case decrypt U m of Inl p \<Rightarrow> Inl p | Inr m1 \<Rightarrow> decrypt U m1) = decrypt U m) \<and>
   (decrypt U m = Inr m' \<and> entry_at p m = Some (JObject obj) \<and>
      index obj ''plaintext'' = JString s \<longrightarrow>
      entry_at p m' = Some (parsed_any U s)) \<and>
   (U ''{"b":1}'' = Inr (JObject [(''b'', JNumber 1)]) \<longrightarrow>
      decrypt U [(''a'', JObject [(''plaintext'', JString ''{"b":1}'')])] =
        Inr [(''a'', JObject [(''b'', JNumber 1)])])\<close>
proof (intro conjI impI)
  assume "list_all (\<lambda>kv. no_plaintext (snd kv)) m"
  then show "decrypt U m = Inr m" by (rule no_plaintext_id(1))
  then show "(case decrypt U m of Inl p \<Rightarrow> Inl p | Inr m1 \<Rightarrow> decrypt U m1) = decrypt U m"
    by simp
next
  assume a: "decrypt U m = Inr m' \<and> entry_at p m = Some (JObject obj) \<and>
      index obj ''plaintext'' = JString s"
  then have w: "wrapper obj" by (simp add: wrapper_def)
  from a decrypt_entry_at[of U m m' p "JObject obj"] w
  show "entry_at p m' = Some (parsed_any U s)" by auto
next
  assume \<open>U ''{"b":1}'' = Inr (JObject [(''b'', JNumber 1)])\<close>
  then show \<open>decrypt U [(''a'', JObject [(''plaintext'', JString ''{"b":1}'')])] =
        Inr [(''a'', JObject [(''b'', JNumber 1)])]\<close>
    by (simp add: index_def parsed_any_def)
qed

theorem decrypt_idempotent_unwraps_witness:
  \<open>list_all (\<lambda>kv. no_plaintext (snd kv)) [(''x'', JObject [(''y'', JArray [JNumber 7])])] \<and>
   decrypt Unmarshal_examples [(''x'', JObject [(''y'', JArray [JNumber 7])])] =
     Inr [(''x'', JObject [(''y'', JArray [JNumber 7])])] \<and>
   decrypt Unmarshal_examples
     [(''o'', JObject [(''i'', JObject [(''plaintext'', JString ''7''), (''z'', JNull)])])] =
     Inr [(''o'', JObject [(''i'', JNumber 7)])] \<and>
   entry_at [''o'', ''i'']
     [(''o'', JObject [(''i'', JObject [(''plaintext'', JString ''7''), (''z'', JNull)])])] =
     Some (JObject [(''plaintext'', JString ''7''), (''z'', JNull)]) \<and>
   index [(''plaintext'', JString ''7''), (''z'', JNull)] ''plaintext'' = JString ''7'' \<and>
   entry_at [''o'', ''i''] [(''o'', JObject [(''i'', JNumber 7)])] =
     Some (parsed_any Unmarshal_examples ''7'') \<and>
   Unmarshal_examples ''{"b":1}'' = Inr (JObject [(''b'', JNumber 1)]) \<and>
   decrypt Unmarshal_examples [(''a'', JObject [(''plaintext'', JString ''{"b":1}'')])] =
     Inr [(''a'', JObject [(''b'', JNumber 1)])]\<close>
proof -
  have d: \<open>decrypt Unmarshal_examples
     [(''o'', JObject [(''i'', JObject [(''plaintext'', JString ''7''), (''z'', JNull)])])] =
     Inr [(''o'', JObject [(''i'', JNumber 7)])]\<close>
    by (simp add: index_def parsed_any_def Unmarshal_examples_def)
  have e: \<open>entry_at [''o'', ''i'']
     [(''o'', JObject [(''i'', JObject [(''plaintext'', JString ''7''), (''z'', JNull)])])] =
     Some (JObject [(''plaintext'', JString ''7''), (''z'', JNull)])\<close>
    by (simp add: wrapper_def index_def)
  have i: \<open>index [(''plaintext'', JString ''7''), (''z'', JNull)] ''plaintext'' = JString ''7''\<close>
    by (simp add: index_def)
  have n: \<open>list_all (\<lambda>kv. no_plaintext (snd kv)) [(''x'', JObject [(''y'', JArray [JNumber 7])])]\<close>
    by simp
  have u: \<open>Unmarshal_examples ''{"b":1}'' = Inr (JObject [(''b'', JNumber 1)])\<close>
    by (simp add: Unmarshal_examples_def)
  note t1 = decrypt_idempotent_unwraps[of "[(''x'', JObject [(''y'', JArray [JNumber 7])])]"
      Unmarshal_examples
      "[(''o'', JObject [(''i'', JNumber 7)])]" "[''o'', ''i'']"
      "[(''plaintext'', JString ''7''), (''z'', JNull)]" "''7''"]
  note t2 = decrypt_idempotent_unwraps[of
      "[(''o'', JObject [(''i'', JObject [(''plaintext'', JString ''7''), (''z'', JNull)])])]"
      Unmarshal_examples
      "[(''o'', JObject [(''i'', JNumber 7)])]" "[''o'', ''i'']"
      "[(''plaintext'', JString ''7''), (''z'', JNull)]" "''7''"]
  from t1 n have 1: \<open>decrypt Unmarshal_examples [(''x'', JObject [(''y'', JArray [JNumber 7])])] =
     Inr [(''x'', JObject [(''y'', JArray [JNumber 7])])]\<close> by blast
  from t2 d e i have 2: \<open>entry_at [''o'', ''i''] [(''o'', JObject [(''i'', JNumber 7)])] =
     Some (parsed_any Unmarshal_examples ''7'')\<close> by blast
  from t2 u have 3: \<open>decrypt Unmarshal_examples [(''a'', JObject [(''plaintext'', JString ''{"b":1}'')])] =
     Inr [(''a'', JObject [(''b'', JNumber 1)])]\<close> by blast
  from n 1 d e i 2 u 3 show ?thesis by blast
qed

section \<open>Properties of the event consumer\<close>

lemma consume_event:
  "consume M (stream_event event # rest) c =
     (if generic_failure event then consume M rest c
      else (case M event of
              Inl err \<Rightarrow> (recorded event c, [OnEvent (engine_StackEvent event)])
            | Inr bytes \<Rightarrow>
                (fst (consume M rest (recorded event c)),
                 [OnEvent (engine_StackEvent event), EventLogWrite bytes, EventLogWrite newline] @
                 snd (consume M rest (recorded event c)))))"
proof (cases "DiagnosticEvent event")
  case None
  then show ?thesis
    by (simp add: generic_failure_def recorded_def error_of_def split: sum.splits prod.splits)
next
  case (Some d)
  then show ?thesis
    by (simp add: generic_failure_def recorded_def error_of_def split: sum.splits prod.splits)
qed

lemma consume_errors:
  "Errors (fst (consume M sr c)) = Errors c @ concat (map error_of (received M sr))"
proof (induction sr arbitrary: c)
  case Nil
  then show ?case by simp
next
  case (Cons r sr)
  show ?case
  proof (cases r)
    case (stream_event event)
    have g: "generic_failure event \<Longrightarrow> error_of event = []"
      by (auto simp: generic_failure_def error_of_def split: option.splits)
    show ?thesis unfolding stream_event consume_event
      by (auto simp: Cons.IH recorded_def g split: sum.splits)
  qed simp_all
qed

lemma consume_callbacks:
  "callback_events (snd (consume M sr c)) =
     map engine_StackEvent (filter (\<lambda>e. \<not> generic_failure e) (received M sr))"
proof (induction sr arbitrary: c)
  case Nil
  then show ?case by (simp add: callback_events_def)
next
  case (Cons r sr)
  show ?case
  proof (cases r)
    case (stream_event event)
    show ?thesis unfolding stream_event consume_event
      using Cons.IH by (auto simp: callback_events_def split: sum.splits)
  qed (simp_all add: callback_events_def)
qed

lemma consume_log:
  "event_log (snd (consume M sr c)) =
     concat (map (log_line M) (filter (\<lambda>e. \<not> generic_failure e) (received M sr)))"
proof (induction sr arbitrary: c)
  case Nil
  then show ?case by (simp add: event_log_def)
next
  case (Cons r sr)
  show ?case
  proof (cases r)
    case (stream_event event)
    show ?thesis unfolding stream_event consume_event
      using Cons.IH by (auto simp: event_log_def log_line_def split: sum.splits)
  qed (simp_all add: event_log_def)
qed

lemma consume_finished:
  "Finished (fst (consume M sr c)) =
     (Finished c \<or> (\<exists>e \<in> set (received M sr). \<not> generic_failure e \<and> SummaryEvent e \<noteq> None))"
proof (induction sr arbitrary: c)
  case Nil
  then show ?case by simp
next
  case (Cons r sr)
  show ?case
  proof (cases r)
    case (stream_event event)
    show ?thesis unfolding stream_event consume_event
      by (auto simp: Cons.IH recorded_def split: sum.splits)
  qed simp_all
qed

lemma consume_other_fields:
  "CompleteEvent.Outputs (fst (consume M sr c)) = CompleteEvent.Outputs c \<and>
   Hints (fst (consume M sr c)) = Hints c \<and>
   CompleteEvent.Links (fst (consume M sr c)) = CompleteEvent.Links c \<and>
   Warps (fst (consume M sr c)) = Warps c \<and>
   Receivers (fst (consume M sr c)) = Receivers c \<and>
   Resources (fst (consume M sr c)) = Resources c"
proof (induction sr arbitrary: c)
  case Nil
  then show ?case by simp
next
  case (Cons r sr)
  show ?case
  proof (cases r)
    case (stream_event event)
    show ?thesis unfolding stream_event consume_event
      by (auto simp: Cons.IH recorded_def split: sum.splits)
  qed simp_all
qed

lemma consume_complete_events: "complete_events (snd (consume M sr c)) = []"
proof -
  have "CompleteEvent (engine_StackEvent e) = None" for e
    by (simp add: engine_StackEvent_def zero_StackEvent_def)
  then show ?thesis by (simp add: complete_events_def consume_callbacks)
qed

section \<open>Properties of \<^verbatim>\<open>Run\<close>\<close>

lemma callback_events_append [simp]:
  "callback_events (a @ b) = callback_events a @ callback_events b"
  by (simp add: callback_events_def)

lemma complete_events_append [simp]:
  "complete_events (a @ b) = complete_events a @ complete_events b"
  by (simp add: complete_events_def)

lemma engine_calls_append [simp]: "engine_calls (a @ b) = engine_calls a @ engine_calls b"
  by (simp add: engine_calls_def)

lemma callback_events_Cons:
  "callback_events (e # es) = (case e of OnEvent ev \<Rightarrow> [ev] | _ \<Rightarrow> []) @ callback_events es"
  "callback_events [] = []"
  by (simp_all add: callback_events_def)

lemma complete_events_none: "callback_events es = [] \<Longrightarrow> complete_events es = []"
  by (simp add: complete_events_def)

lemma first_exit_quiet:
  assumes "\<And>s. s \<in> set steps \<Longrightarrow> f (snd s) = []"
    and "\<And>a b. f (a @ b) = f a @ f b"
  shows "f (snd (first_exit steps)) = []"
  using assms(1)
proof (induction steps rule: first_exit.induct)
  case 1
  have "f ([] @ []) = f [] @ f []" by (rule assms(2))
  then show ?case by simp
next
  case (2 out es rest)
  from "2.prems"[of "(Some out, es)"] show ?case by simp
next
  case (3 es rest)
  from "3.prems"[of "(None, es)"] have a: "f es = []" by simp
  have b: "f (snd (first_exit rest)) = []"
    by (rule "3.IH") (simp add: "3.prems")
  obtain r es' where r: "first_exit rest = (r, es')" by (cases "first_exit rest")
  with a b show ?case by (simp add: assms(2))
qed

lemma step_effects:
  "snd (err_step r) = []"
  "snd (call_step r e) = [e]"
  "snd (build_step w) = []"
  by (auto simp: err_step_def call_step_def build_step_def split: sum.splits)

lemma files_step_effects:
  "snd (files_step w input) = [] \<or> (\<exists>fs. snd (files_step w input) = [OnFiles fs])"
  by (auto simp: files_step_def split: sum.splits json.splits)

lemma config_step_effects:
  "snd (config_step w skip app) = [] \<or> (\<exists>c. snd (config_step w skip app) = [SetAllConfig c])"
  by (auto simp: config_step_def call_step_def split: sum.splits)

lemma setup_steps_quiet:
  "callback_events (snd (files_step w input)) = []"
  "callback_events (snd (config_step w skip app)) = []"
  "EngineOp cmd \<notin> set (snd (files_step w input))"
  "EngineOp cmd \<notin> set (snd (config_step w skip app))"
  "StackExport \<notin> set (snd (files_step w input))"
  "StackExport \<notin> set (snd (config_step w skip app))"
  using files_step_effects[of w input] config_step_effects[of w skip app]
  by (auto simp: callback_events_def)

lemma setup_callbacks: "callback_events (snd (Run_setup w app input)) = []"
  unfolding Run_setup_def
  by (rule first_exit_quiet) (auto simp: step_effects setup_steps_quiet callback_events_Cons)

lemma setup_engine_ops:
  "EngineOp cmd \<notin> set (snd (Run_setup w app input)) \<and>
   StackExport \<notin> set (snd (Run_setup w app input))"
proof -
  let ?f = "filter (\<lambda>e. e = EngineOp cmd \<or> e = StackExport)"
  have "?f (snd (Run_setup w app input)) = []"
    unfolding Run_setup_def
    by (rule first_exit_quiet)
      (auto simp: step_effects setup_steps_quiet filter_empty_conv)
  then show ?thesis by (auto simp: filter_empty_conv)
qed

lemma Unlock_alt:
  "Unlock w =
     (case os_ReadDir w of
        Inl err \<Rightarrow> (Some err, [OsReadDir])
      | Inr files \<Rightarrow>
          (case fst (remove_files (os_Remove w) files) of
             Some err \<Rightarrow> (Some err, OsReadDir # snd (remove_files (os_Remove w) files))
           | None \<Rightarrow>
               (provider_Unlock w,
                OsReadDir # snd (remove_files (os_Remove w) files) @ [ProviderUnlock])))"
  by (simp add: Unlock_def split: sum.splits prod.splits option.splits)

lemma remove_files_effects:
  "callback_events (snd (remove_files rm files)) = []"
  "engine_calls (snd (remove_files rm files)) = []"
  "ProviderUnlock \<notin> set (snd (remove_files rm files))"
  "ProviderPushState \<notin> set (snd (remove_files rm files))"
  by (induction rm files rule: remove_files.induct)
    (auto simp: callback_events_Cons engine_calls_def split: option.splits prod.splits)

lemma Unlock_effects:
  "callback_events (snd (Unlock w)) = []" "engine_calls (snd (Unlock w)) = []"
  using remove_files_effects(2)[of "os_Remove w"]
  by (auto simp: Unlock_alt callback_events_Cons remove_files_effects engine_calls_def
      split: sum.splits option.splits)

lemma PullState_effects:
  "callback_events (snd (PullState w)) = []" "engine_calls (snd (PullState w)) = []"
  by (auto simp: PullState_def callback_events_Cons engine_calls_def split: option.splits)

lemma reserved_keeps:
  assumes "\<And>m c. Errors (merge m c) = Errors c \<and> Finished (merge m c) = Finished c"
    and "\<And>m. callback_events (effs m) = []"
  shows "fst (reserved outputs key merge effs st) = None \<longrightarrow> fst st = None"
    and "Errors (fst (snd (reserved outputs key merge effs st))) = Errors (fst (snd st))"
    and "Finished (fst (snd (reserved outputs key merge effs st))) = Finished (fst (snd st))"
    and "callback_events (snd (snd st)) = [] \<Longrightarrow>
           callback_events (snd (snd (reserved outputs key merge effs st))) = []"
  using assms
  by (auto simp: reserved_def split: prod.splits option.splits json.splits)

lemma merge_keeps:
  "Errors (merge_links m c) = Errors c \<and> Finished (merge_links m c) = Finished c"
  "Errors (merge_hints m c) = Errors c \<and> Finished (merge_hints m c) = Finished c"
  "Errors (merge_warps d m c) = Errors c \<and> Finished (merge_warps d m c) = Finished c"
  "Errors (merge_receivers d' m c) = Errors c \<and> Finished (merge_receivers d' m c) = Finished c"
  "Errors (merge_outputs m c) = Errors c \<and> Finished (merge_outputs m c) = Finished c"
  by (simp_all add: merge_links_def merge_hints_def merge_warps_def merge_receivers_def
      merge_outputs_def)

lemma links_effects_quiet: "callback_events (links_effects w links) = []"
  by (simp add: links_effects_def callback_events_Cons)

lemma extract_outputs_keeps:
  "Errors (fst (snd (extract_outputs w outputs c))) = Errors c"
  "Finished (fst (snd (extract_outputs w outputs c))) = Finished c"
  "callback_events (snd (snd (extract_outputs w outputs c))) = []"
proof -
  let ?s1 = "reserved outputs ''_links'' merge_links (links_effects w) (None, c, [])"
  let ?s2 = "reserved outputs ''_hints'' merge_hints (\<lambda>m. []) ?s1"
  let ?s3 = "reserved outputs ''_warps'' (merge_warps (decode_Warp w)) (\<lambda>m. []) ?s2"
  let ?s4 = "reserved outputs ''_receivers'' (merge_receivers (decode_Receiver w)) (\<lambda>m. []) ?s3"
  have e: "Errors (fst (snd ?s4)) = Errors c" "Finished (fst (snd ?s4)) = Finished c"
    by (simp_all add: reserved_keeps(2,3) merge_keeps links_effects_quiet callback_events_Cons)
  have q1: "callback_events (snd (snd ?s1)) = []"
    by (rule reserved_keeps(4)) (simp_all add: merge_keeps links_effects_quiet callback_events_Cons)
  have q2: "callback_events (snd (snd ?s2)) = []"
    by (rule reserved_keeps(4)) (simp_all add: merge_keeps q1 callback_events_Cons)
  have q3: "callback_events (snd (snd ?s3)) = []"
    by (rule reserved_keeps(4)) (simp_all add: merge_keeps q2 callback_events_Cons)
  have q4: "callback_events (snd (snd ?s4)) = []"
    by (rule reserved_keeps(4)) (simp_all add: merge_keeps q3 callback_events_Cons)
  obtain p c' es where s4: "?s4 = (p, c', es)" by (cases ?s4)
  show "Errors (fst (snd (extract_outputs w outputs c))) = Errors c"
    "Finished (fst (snd (extract_outputs w outputs c))) = Finished c"
    "callback_events (snd (snd (extract_outputs w outputs c))) = []"
    using e q4 unfolding extract_outputs_def s4
    by (auto simp: merge_keeps split: option.splits)
qed

lemma finalizer_body_keeps:
  "Errors (fst (snd (finalizer_body w c))) = Errors c"
  "Finished (fst (snd (finalizer_body w c))) = Finished c"
  "callback_events (snd (snd (finalizer_body w c))) = []"
  by (simp_all add: finalizer_body_def case_prod_beta extract_outputs_keeps callback_events_Cons
      split: list.splits sum.splits option.splits json.splits)

lemma finalizer_alt:
  "finalizer w c =
     (fst (finalizer_body w c),
      [StackExport] @ snd (snd (finalizer_body w c)) @
      [OnEvent (zero_StackEvent\<lparr>CompleteEvent := Some (fst (snd (finalizer_body w c)))\<rparr>)])"
  by (simp add: finalizer_def case_prod_beta)

lemma finalizer_complete:
  "complete_events (snd (finalizer w c)) = [fst (snd (finalizer_body w c))]"
  by (simp add: finalizer_alt complete_events_def callback_events_Cons finalizer_body_keeps
      zero_StackEvent_def)

lemma engine_call_alt:
  "engine_call w input =
     (if Command input = ''up'' \<or> Command input = ''destroy'' \<or> Command input = ''refresh''
      then (fst (consume (json_Marshal_event w) (select_results w) new_complete),
            EngineOp (Command input) #
              snd (consume (json_Marshal_event w) (select_results w) new_complete),
            engine_result w)
      else (new_complete, [], None))"
  by (simp add: engine_call_def case_prod_beta)

lemma engine_call_complete: "complete_events (fst (snd (engine_call w input))) = []"
  using consume_complete_events[of "json_Marshal_event w" "select_results w" new_complete]
  by (simp add: engine_call_alt complete_events_def callback_events_Cons)

lemma Run_engine_alt:
  "Run_engine w input =
     (case fst (finalizer_body w (fst (engine_call w input))) of
        Some p \<Rightarrow> Panicked p
      | None \<Rightarrow>
          Returned (if snd (snd (engine_call w input)) \<noteq> None then Some ErrStackRunFailed
                    else None),
      fst (snd (engine_call w input)) @ snd (finalizer w (fst (engine_call w input))) @
      [EventLogClose])"
  by (simp add: Run_engine_def case_prod_beta finalizer_alt split: option.splits)

lemma Run_engine_complete:
  "complete_events (snd (Run_engine w input)) =
     [fst (snd (finalizer_body w (fst (engine_call w input))))]"
  by (simp add: Run_engine_alt engine_call_complete finalizer_complete)
    (simp add: complete_events_def callback_events_Cons)

lemma Run_reaches:
  assumes "reaches_engine w app input"
  shows "Run w app input =
     (fst (Run_engine w input),
      [OnEvent (command_event input), ProviderLock] @ snd (PullState w) @
      snd (Run_setup w app input) @ snd (Run_engine w input) @ [ProviderPushState] @
      snd (Unlock w))"
  using assms
  by (simp add: reaches_engine_def Run_def Run_locked_def Run_pulled_def PushState_def
      command_event_def case_prod_beta split: option.splits)

lemma complete_events_Cons:
  "complete_events (e # es) =
     (case e of
        OnEvent ev \<Rightarrow> (case CompleteEvent ev of Some c \<Rightarrow> [c] | None \<Rightarrow> [])
      | _ \<Rightarrow> []) @ complete_events es"
  "complete_events [] = []"
  by (simp_all add: complete_events_def callback_events_def split: effect.splits)

lemma Run_reaches_complete:
  assumes "reaches_engine w app input"
  shows "complete_events (snd (Run w app input)) =
     [fst (snd (finalizer_body w (fst (engine_call w input))))]"
  by (simp add: Run_reaches[OF assms] Run_engine_complete
      complete_events_none PullState_effects Unlock_effects setup_callbacks
      complete_events_Cons command_event_def zero_StackEvent_def)

lemma Run_not_reaches:
  assumes "\<not> reaches_engine w app input"
  shows "complete_events (snd (Run w app input)) = []"
    and "EngineOp cmd \<notin> set (snd (Run w app input))"
proof -
  have u: "complete_events (snd (Unlock w)) = []" "complete_events (snd (PullState w)) = []"
    "complete_events (snd (Run_setup w app input)) = []"
    by (simp_all add: complete_events_none PullState_effects Unlock_effects setup_callbacks)
  have c2: "complete_events [OnEvent (command_event input), ProviderLock,
      OnEvent (zero_StackEvent\<lparr>ConcurrentUpdateEvent := Some ()\<rparr>)] = []"
    by (simp add: complete_events_def callback_events_Cons command_event_def zero_StackEvent_def)
  show "complete_events (snd (Run w app input)) = []"
    using assms u
    by (auto simp: reaches_engine_def Run_def Run_locked_def Run_pulled_def PushState_def
        complete_events_Cons zero_StackEvent_def case_prod_beta split: option.splits)
  have e: "EngineOp cmd \<notin> set (snd (Unlock w))" "EngineOp cmd \<notin> set (snd (PullState w))"
    using Unlock_effects(2)[of w] PullState_effects(2)[of w]
    by (auto simp: engine_calls_def filter_empty_conv)
  show "EngineOp cmd \<notin> set (snd (Run w app input))"
    using assms e setup_engine_ops[of cmd w app input]
    by (auto simp: reaches_engine_def Run_def Run_locked_def Run_pulled_def PushState_def
        case_prod_beta split: option.splits)
qed

lemma received_all:
  "\<forall>e \<in> set events. generic_failure e \<or> (\<exists>bytes. M e = Inr bytes) \<Longrightarrow>
     received M (map stream_event events @ [stream_closed]) = events"
  by (induction events) auto

lemma reserved_fst:
  "fst (reserved outputs key merge effs st) =
     (case fst st of
        Some p \<Rightarrow> Some p
      | None \<Rightarrow>
          (case map_of outputs key of
             None \<Rightarrow> None
           | Some (JObject m) \<Rightarrow> None
           | Some _ \<Rightarrow> Some InterfaceConversion))"
  by (auto simp: reserved_def split: prod.splits option.splits json.splits)

lemma extract_outputs_fst:
  "fst (extract_outputs w outputs c) = fst (extract_outputs w outputs c')"
  by (simp add: extract_outputs_def case_prod_beta reserved_fst split: option.splits)

lemma finalizer_body_fst: "fst (finalizer_body w c) = fst (finalizer_body w c')"
  using extract_outputs_fst
  by (auto simp: finalizer_body_def case_prod_beta split: list.splits sum.splits)

text \<open>
  Claim C2, as the code has it. A run hands a result record to the callback once when
  it reaches the engine stage, whether the deferred function returns or panics, and
  never when it leaves earlier. When a run that reaches the engine stage with one of the
  three commands sees the engine fail after events none of which is a summary, all of
  them taken by the consumer before the channel is closed, and the deferred function
  does not panic, then \<^verbatim>\<open>Run\<close> returns \<^verbatim>\<open>ErrStackRunFailed\<close>; the record handed over is the
  one the extraction has filled, its errors are those of the error diagnostics without
  the prefix \<^verbatim>\<open>update failed\<close> in order, and it is not finished; the event log is closed,
  the state is pushed and \<^verbatim>\<open>Unlock\<close> runs after the record is handed over.
\<close>

theorem Run_engine_failure:
  "(reaches_engine w app input \<longrightarrow> length (complete_events (snd (Run w app input))) = 1) \<and>
   (\<not> reaches_engine w app input \<longrightarrow> complete_events (snd (Run w app input)) = []) \<and>
   (reaches_engine w app input \<and>
    (Command input = ''up'' \<or> Command input = ''destroy'' \<or> Command input = ''refresh'') \<and>
    engine_result w \<noteq> None \<and>
    select_results w = map stream_event events @ [stream_closed] \<and>
    (\<forall>e \<in> set events.
       SummaryEvent e = None \<and>
       (generic_failure e \<or> (\<exists>bytes. json_Marshal_event w e = Inr bytes))) \<and>
    fst (finalizer_body w new_complete) = None \<longrightarrow>
      fst (Run w app input) = Returned (Some ErrStackRunFailed) \<and>
      (\<exists>c es.
         snd (Run w app input) =
           es @ [OnEvent (zero_StackEvent\<lparr>CompleteEvent := Some c\<rparr>), EventLogClose,
                 ProviderPushState] @ snd (Unlock w) \<and>
         complete_events es = [] \<and>
         c = fst (snd (finalizer_body w (fst (engine_call w input)))) \<and>
         Errors c = concat (map error_of events) \<and>
         \<not> Finished c))"
proof (intro conjI impI)
  assume "reaches_engine w app input"
  then show "length (complete_events (snd (Run w app input))) = 1"
    by (simp add: Run_reaches_complete)
next
  assume "\<not> reaches_engine w app input"
  then show "complete_events (snd (Run w app input)) = []" by (rule Run_not_reaches(1))
next
  assume a: "reaches_engine w app input \<and>
    (Command input = ''up'' \<or> Command input = ''destroy'' \<or> Command input = ''refresh'') \<and>
    engine_result w \<noteq> None \<and>
    select_results w = map stream_event events @ [stream_closed] \<and>
    (\<forall>e \<in> set events.
       SummaryEvent e = None \<and>
       (generic_failure e \<or> (\<exists>bytes. json_Marshal_event w e = Inr bytes))) \<and>
    fst (finalizer_body w new_complete) = None"
  let ?M = "json_Marshal_event w"
  let ?c1 = "fst (consume ?M (select_results w) new_complete)"
  let ?c = "fst (snd (finalizer_body w (fst (engine_call w input))))"
  from a have cmd: "Command input = ''up'' \<or> Command input = ''destroy'' \<or> Command input = ''refresh''"
    by blast
  from a have rec: "received ?M (select_results w) = events"
    by (simp add: received_all)
  have ec: "fst (engine_call w input) = ?c1" "snd (snd (engine_call w input)) = engine_result w"
    using cmd by (auto simp: engine_call_alt)
  have nopanic: "fst (finalizer_body w (fst (engine_call w input))) = None"
    using a finalizer_body_fst[of w "fst (engine_call w input)" new_complete] by simp
  show "fst (Run w app input) = Returned (Some ErrStackRunFailed)"
    using a nopanic ec by (simp add: Run_reaches Run_engine_alt)
  have errs: "Errors ?c = concat (map error_of events)"
    by (simp add: finalizer_body_keeps ec consume_errors rec new_complete_def)
  have "Finished ?c = (\<exists>e \<in> set events. \<not> generic_failure e \<and> SummaryEvent e \<noteq> None)"
    by (simp add: finalizer_body_keeps ec consume_finished rec new_complete_def)
  moreover from a have "\<forall>e \<in> set events. SummaryEvent e = None" by blast
  ultimately have fin: "\<not> Finished ?c" by simp
  let ?es = "[OnEvent (command_event input), ProviderLock] @ snd (PullState w) @
      snd (Run_setup w app input) @ fst (snd (engine_call w input)) @ [StackExport] @
      snd (snd (finalizer_body w (fst (engine_call w input))))"
  have eff: "snd (Run w app input) =
      ?es @ [OnEvent (zero_StackEvent\<lparr>CompleteEvent := Some ?c\<rparr>), EventLogClose,
             ProviderPushState] @ snd (Unlock w)"
    using a by (simp add: Run_reaches Run_engine_alt finalizer_alt)
  have quiet: "complete_events ?es = []"
    by (simp add: engine_call_complete complete_events_none PullState_effects setup_callbacks
        finalizer_body_keeps complete_events_Cons command_event_def zero_StackEvent_def)
  from eff quiet errs fin
  show "\<exists>c es.
         snd (Run w app input) =
           es @ [OnEvent (zero_StackEvent\<lparr>CompleteEvent := Some c\<rparr>), EventLogClose,
                 ProviderPushState] @ snd (Unlock w) \<and>
         complete_events es = [] \<and>
         c = fst (snd (finalizer_body w (fst (engine_call w input)))) \<and>
         Errors c = concat (map error_of events) \<and>
         \<not> Finished c"
    by blast
qed

lemma failing_reaches: "reaches_engine failing app_example up_input"
  by (simp add: reaches_engine_def failing_def calm_def PullState_def pull_exit_def up_input_def
      Run_setup_def app_example_def err_step_def call_step_def
      build_step_def files_step_def config_step_def slice_at_def provider_config_def
      run_skip_def)

lemma failing_body: "fst (finalizer_body failing new_complete) = None"
  by (simp add: finalizer_body_def failing_def calm_def zero_ResourceV3_def outputs_example_def
      index_def parsed_any_def Unmarshal_examples_def extract_outputs_def reserved_def)

theorem Run_engine_failure_witness:
  "reaches_engine failing app_example up_input \<and>
   Command up_input = ''up'' \<and>
   engine_result failing = Some (ErrOther ''exit status 255'') \<and>
   select_results failing =
     map stream_event
       [diagnostic 1 ''error'' ''bucket name taken'' ''urn:bucket'',
        diagnostic 2 ''error'' ''role not found'' ''urn:role'',
        diagnostic 3 ''error'' ''update failed'' []] @ [stream_closed] \<and>
   fst (finalizer_body failing new_complete) = None \<and>
   fst (Run failing app_example up_input) = Returned (Some ErrStackRunFailed) \<and>
   length (complete_events (snd (Run failing app_example up_input))) = 1 \<and>
   map Errors (complete_events (snd (Run failing app_example up_input))) =
     [[\<lparr>Error.Message = ''bucket name taken'', Error.URN = ''urn:bucket''\<rparr>,
       \<lparr>Error.Message = ''role not found'', Error.URN = ''urn:role''\<rparr>]] \<and>
   map Finished (complete_events (snd (Run failing app_example up_input))) = [False] \<and>
   ProviderPushState \<in> set (snd (Run failing app_example up_input))"
proof -
  let ?events = "[diagnostic 1 ''error'' ''bucket name taken'' ''urn:bucket'',
        diagnostic 2 ''error'' ''role not found'' ''urn:role'',
        diagnostic 3 ''error'' ''update failed'' []]"
  have s: "select_results failing = map stream_event ?events @ [stream_closed]"
    by (simp add: failing_def calm_def)
  have r: "engine_result failing = Some (ErrOther ''exit status 255'')"
    by (simp add: failing_def calm_def)
  have c: "Command up_input = ''up''" by (simp add: up_input_def)
  have m: "\<forall>e \<in> set ?events.
       SummaryEvent e = None \<and>
       (generic_failure e \<or> (\<exists>bytes. json_Marshal_event failing e = Inr bytes))"
    by (simp add: diagnostic_def zero_EngineEvent_def failing_def calm_def Marshal_examples_def)
  have e: "concat (map error_of ?events) =
     [\<lparr>Error.Message = ''bucket name taken'', Error.URN = ''urn:bucket''\<rparr>,
       \<lparr>Error.Message = ''role not found'', Error.URN = ''urn:role''\<rparr>]"
    by (simp add: error_of_def diagnostic_def zero_EngineEvent_def HasPrefix_def)
  note t = Run_engine_failure[of failing app_example up_input ?events]
  from t failing_reaches c r s m failing_body
  have 1: "fst (Run failing app_example up_input) = Returned (Some ErrStackRunFailed)"
    by simp
  from t failing_reaches c r s m failing_body obtain cv es where
    2: "snd (Run failing app_example up_input) =
           es @ [OnEvent (zero_StackEvent\<lparr>CompleteEvent := Some cv\<rparr>), EventLogClose,
                 ProviderPushState] @ snd (Unlock failing)"
      "complete_events es = []" "Errors cv = concat (map error_of ?events)" "\<not> Finished cv"
    by auto
  have 3: "complete_events (snd (Run failing app_example up_input)) = [cv]"
    by (simp add: 2 complete_events_Cons zero_StackEvent_def complete_events_none Unlock_effects)
  show ?thesis
    using failing_reaches c r s failing_body 1 2(3,4) e unfolding 3
    by (simp add: 2(1))
qed

text \<open>The claim as worded fails on a run that finds the lock taken: the callback gets
  the announcement and the concurrent-update event, and no result record.\<close>

theorem Run_lock_exists_counterexample:
  "fst (Run locked_elsewhere app_example up_input) = Returned (Some ErrLockExists) \<and>
   callback_events (snd (Run locked_elsewhere app_example up_input)) =
     [command_event up_input, zero_StackEvent\<lparr>ConcurrentUpdateEvent := Some ()\<rparr>] \<and>
   complete_events (snd (Run locked_elsewhere app_example up_input)) = []"
  by (simp add: Run_def locked_elsewhere_def calm_def callback_events_def complete_events_def
      command_event_def zero_StackEvent_def)

section \<open>The claims about the consumer\<close>

text \<open>
  Claim C1, as the code has it. The consumer hands to the callback, wrapped in a
  \<^verbatim>\<open>StackEvent\<close> and in the order of arrival, every event it takes from the channel
  except the error diagnostics whose message starts with \<^verbatim>\<open>update failed\<close>, and it appends
  to the event log, in the same order, one line for each of the events handed over that
  can be serialised. When every event that is not such a diagnostic can be serialised
  and the channel is closed after the last one, the events taken are all the events
  sent.
\<close>

theorem consume_forwards_and_logs:
  "callback_events (snd (consume M sr c)) =
     map engine_StackEvent (filter (\<lambda>e. \<not> generic_failure e) (received M sr)) \<and>
   event_log (snd (consume M sr c)) =
     concat (map (log_line M) (filter (\<lambda>e. \<not> generic_failure e) (received M sr))) \<and>
   ((\<forall>e \<in> set events. generic_failure e \<or> (\<exists>bytes. M e = Inr bytes)) \<longrightarrow>
      received M (map stream_event events @ [stream_closed]) = events)"
  using consume_callbacks[of M sr c] consume_log[of M sr c] received_all[of events M]
  by blast

theorem consume_forwards_and_logs_witness:
  "received Marshal_examples
     [stream_event (diagnostic 1 ''warning'' ''deprecated'' ''urn:a''),
      stream_event (diagnostic 2 ''error'' ''update failed'' []),
      stream_event (zero_EngineEvent\<lparr>Sequence := 3, SummaryEvent := Some \<lparr>DurationSeconds = 9\<rparr>\<rparr>),
      stream_closed] =
     [diagnostic 1 ''warning'' ''deprecated'' ''urn:a'',
      diagnostic 2 ''error'' ''update failed'' [],
      zero_EngineEvent\<lparr>Sequence := 3, SummaryEvent := Some \<lparr>DurationSeconds = 9\<rparr>\<rparr>] \<and>
   callback_events (snd (consume Marshal_examples
     [stream_event (diagnostic 1 ''warning'' ''deprecated'' ''urn:a''),
      stream_event (diagnostic 2 ''error'' ''update failed'' []),
      stream_event (zero_EngineEvent\<lparr>Sequence := 3, SummaryEvent := Some \<lparr>DurationSeconds = 9\<rparr>\<rparr>),
      stream_closed] new_complete)) =
     [engine_StackEvent (diagnostic 1 ''warning'' ''deprecated'' ''urn:a''),
      engine_StackEvent
        (zero_EngineEvent\<lparr>Sequence := 3, SummaryEvent := Some \<lparr>DurationSeconds = 9\<rparr>\<rparr>)] \<and>
   event_log (snd (consume Marshal_examples
     [stream_event (diagnostic 1 ''warning'' ''deprecated'' ''urn:a''),
      stream_event (diagnostic 2 ''error'' ''update failed'' []),
      stream_event (zero_EngineEvent\<lparr>Sequence := 3, SummaryEvent := Some \<lparr>DurationSeconds = 9\<rparr>\<rparr>),
      stream_closed] new_complete)) =
     log_line Marshal_examples (diagnostic 1 ''warning'' ''deprecated'' ''urn:a'') @
     log_line Marshal_examples
       (zero_EngineEvent\<lparr>Sequence := 3, SummaryEvent := Some \<lparr>DurationSeconds = 9\<rparr>\<rparr>)"
proof -
  let ?events = "[diagnostic 1 ''warning'' ''deprecated'' ''urn:a'',
      diagnostic 2 ''error'' ''update failed'' [],
      zero_EngineEvent\<lparr>Sequence := 3, SummaryEvent := Some \<lparr>DurationSeconds = 9\<rparr>\<rparr>]"
  have m: "\<forall>e \<in> set ?events. generic_failure e \<or> (\<exists>bytes. Marshal_examples e = Inr bytes)"
    by (simp add: Marshal_examples_def diagnostic_def zero_EngineEvent_def)
  have g: "filter (\<lambda>e. \<not> generic_failure e) ?events =
     [diagnostic 1 ''warning'' ''deprecated'' ''urn:a'',
      zero_EngineEvent\<lparr>Sequence := 3, SummaryEvent := Some \<lparr>DurationSeconds = 9\<rparr>\<rparr>]"
    by (simp add: generic_failure_def diagnostic_def zero_EngineEvent_def HasPrefix_def)
  note t = consume_forwards_and_logs[of Marshal_examples
      "map stream_event ?events @ [stream_closed]" new_complete ?events]
  from t m have r: "received Marshal_examples (map stream_event ?events @ [stream_closed]) = ?events"
    by blast
  from t show ?thesis unfolding r g using r by simp
qed

text \<open>The claim as worded fails on the generic summary: the event is taken from the
  channel and reaches neither the callback nor the log.\<close>

theorem consume_skips_generic_failure_counterexample:
  "received Marshal_examples
     [stream_event (diagnostic 2 ''error'' ''update failed'' []), stream_closed] =
     [diagnostic 2 ''error'' ''update failed'' []] \<and>
   callback_events (snd (consume Marshal_examples
     [stream_event (diagnostic 2 ''error'' ''update failed'' []), stream_closed]
     new_complete)) = [] \<and>
   event_log (snd (consume Marshal_examples
     [stream_event (diagnostic 2 ''error'' ''update failed'' []), stream_closed]
     new_complete)) = []"
  by (simp add: diagnostic_def zero_EngineEvent_def HasPrefix_def generic_failure_def
      callback_events_def event_log_def)

text \<open>
  Claim C3. After the consumer has run, the error list is the list it started with
  followed, in the order of arrival, by one record of message and URN for each event
  taken from the channel that is an error diagnostic without the prefix
  \<^verbatim>\<open>update failed\<close>; an error diagnostic with the prefix, a diagnostic of another
  severity and an event that is not a diagnostic add nothing.
\<close>

theorem consume_collects_errors:
  "Errors (fst (consume M sr c)) = Errors c @ concat (map error_of (received M sr))"
  by (rule consume_errors)

theorem consume_collects_errors_witness:
  "Errors (fst (consume Marshal_examples
     [stream_event (diagnostic 1 ''error'' ''bucket name taken'' ''urn:bucket''),
      stream_event (diagnostic 2 ''warning'' ''deprecated'' ''urn:a''),
      stream_event (diagnostic 3 ''error'' ''update failed'' []),
      stream_event (zero_EngineEvent\<lparr>Sequence := 4\<rparr>),
      stream_event (diagnostic 5 ''error'' ''role not found'' ''urn:role''),
      stream_closed] new_complete)) =
     [\<lparr>Error.Message = ''bucket name taken'', Error.URN = ''urn:bucket''\<rparr>,
      \<lparr>Error.Message = ''role not found'', Error.URN = ''urn:role''\<rparr>]"
  using consume_collects_errors[of Marshal_examples
     "[stream_event (diagnostic 1 ''error'' ''bucket name taken'' ''urn:bucket''),
      stream_event (diagnostic 2 ''warning'' ''deprecated'' ''urn:a''),
      stream_event (diagnostic 3 ''error'' ''update failed'' []),
      stream_event (zero_EngineEvent\<lparr>Sequence := 4\<rparr>),
      stream_event (diagnostic 5 ''error'' ''role not found'' ''urn:role''),
      stream_closed]" new_complete]
  by (simp add: diagnostic_def zero_EngineEvent_def HasPrefix_def generic_failure_def
      error_of_def Marshal_examples_def new_complete_def)

section \<open>State pull and unlock\<close>

text \<open>
  Claim C4. With the lock taken and a state pull that fails: when the error is
  \<^verbatim>\<open>ErrStateNotFound\<close> and the command is \<^verbatim>\<open>up\<close>, the run goes on as after a pull that
  succeeded, and calls the engine operation when the steps before it pass; when the
  error is \<^verbatim>\<open>ErrStateNotFound\<close> and the command is another one, \<^verbatim>\<open>Run\<close> returns
  \<^verbatim>\<open>ErrStageNotFound\<close>; on any other error \<^verbatim>\<open>Run\<close> returns that error. In the last two
  cases the run consists of the announcement, the lock, the pull and \<^verbatim>\<open>Unlock\<close>, and no
  call touches the engine.
\<close>

theorem Run_state_not_found:
  "provider_Lock w = None \<and> fst (PullState w) = Some err \<longrightarrow>
     (if errors_Is err ErrStateNotFound \<and> Command input = ''up''
      then Run w app input =
             (fst (Run_pulled w app input),
              [OnEvent (command_event input), ProviderLock] @ snd (PullState w) @
              snd (Run_pulled w app input) @ [ProviderPushState] @ snd (Unlock w)) \<and>
           (fst (Run_setup w app input) = None \<longrightarrow>
              EngineOp ''up'' \<in> set (snd (Run w app input)))
      else fst (Run w app input) =
             Returned (Some (if errors_Is err ErrStateNotFound then ErrStageNotFound else err)) \<and>
           snd (Run w app input) =
             [OnEvent (command_event input), ProviderLock] @ snd (PullState w) @
             snd (Unlock w) \<and>
           engine_calls (snd (Run w app input)) = [])"
proof (intro impI)
  assume a: "provider_Lock w = None \<and> fst (PullState w) = Some err"
  show "if errors_Is err ErrStateNotFound \<and> Command input = ''up''
      then Run w app input =
             (fst (Run_pulled w app input),
              [OnEvent (command_event input), ProviderLock] @ snd (PullState w) @
              snd (Run_pulled w app input) @ [ProviderPushState] @ snd (Unlock w)) \<and>
           (fst (Run_setup w app input) = None \<longrightarrow>
              EngineOp ''up'' \<in> set (snd (Run w app input)))
      else fst (Run w app input) =
             Returned (Some (if errors_Is err ErrStateNotFound then ErrStageNotFound else err)) \<and>
           snd (Run w app input) =
             [OnEvent (command_event input), ProviderLock] @ snd (PullState w) @
             snd (Unlock w) \<and>
           engine_calls (snd (Run w app input)) = []"
  proof (cases "errors_Is err ErrStateNotFound \<and> Command input = ''up''")
    case True
    with a have pe: "pull_exit (fst (PullState w)) (Command input) = None"
      by (simp add: pull_exit_def)
    have run: "Run w app input =
             (fst (Run_pulled w app input),
              [OnEvent (command_event input), ProviderLock] @ snd (PullState w) @
              snd (Run_pulled w app input) @ [ProviderPushState] @ snd (Unlock w))"
      using a pe
      by (simp add: Run_def Run_locked_def PushState_def command_event_def case_prod_beta)
    have "EngineOp ''up'' \<in> set (snd (Run_pulled w app input))"
      if "fst (Run_setup w app input) = None"
      using that True
      by (simp add: Run_pulled_def case_prod_beta Run_engine_alt engine_call_alt)
    with run True show ?thesis by simp
  next
    case False
    with a have pe: "pull_exit (fst (PullState w)) (Command input) =
        Some (if errors_Is err ErrStateNotFound then ErrStageNotFound else err)"
      by (auto simp: pull_exit_def)
    have run: "Run w app input =
         (Returned (Some (if errors_Is err ErrStateNotFound then ErrStageNotFound else err)),
          [OnEvent (command_event input), ProviderLock] @ snd (PullState w) @ snd (Unlock w))"
      using a pe
      by (simp add: Run_def Run_locked_def command_event_def case_prod_beta)
    have "engine_calls (snd (Run w app input)) = []"
      using PullState_effects(2)[of w] Unlock_effects(2)[of w]
      by (simp add: run engine_calls_def)
    with run False show ?thesis by simp
  qed
qed

theorem Run_state_not_found_witness:
  "provider_Lock no_state = None \<and> fst (PullState no_state) = Some ErrStateNotFound \<and>
   errors_Is ErrStateNotFound ErrStateNotFound \<and>
   fst (Run no_state app_example destroy_input) = Returned (Some ErrStageNotFound) \<and>
   engine_calls (snd (Run no_state app_example destroy_input)) = [] \<and>
   fst (Run_setup no_state app_example up_input) = None \<and>
   EngineOp ''up'' \<in> set (snd (Run no_state app_example up_input)) \<and>
   provider_Lock pull_broken = None \<and>
   fst (PullState pull_broken) = Some (ErrOther ''access denied'') \<and>
   fst (Run pull_broken app_example up_input) = Returned (Some (ErrOther ''access denied'')) \<and>
   engine_calls (snd (Run pull_broken app_example up_input)) = []"
proof -
  have l: "provider_Lock no_state = None" "fst (PullState no_state) = Some ErrStateNotFound"
    "provider_Lock pull_broken = None"
    "fst (PullState pull_broken) = Some (ErrOther ''access denied'')"
    by (simp_all add: no_state_def pull_broken_def calm_def PullState_def)
  have s: "fst (Run_setup no_state app_example up_input) = None"
    by (simp add: Run_setup_def no_state_def calm_def app_example_def up_input_def err_step_def
      call_step_def build_step_def files_step_def config_step_def slice_at_def
      provider_config_def run_skip_def)
  have c: "Command destroy_input = ''destroy''" "Command up_input = ''up''"
    by (simp_all add: destroy_input_def up_input_def)
  have n1: "\<not> (errors_Is ErrStateNotFound ErrStateNotFound \<and> Command destroy_input = ''up'')"
    by (simp add: c)
  have n3: "\<not> (errors_Is (ErrOther ''access denied'') ErrStateNotFound \<and> Command up_input = ''up'')"
    by simp
  have y2: "errors_Is ErrStateNotFound ErrStateNotFound \<and> Command up_input = ''up''"
    by (simp add: c)
  note t1 = Run_state_not_found[of no_state ErrStateNotFound destroy_input app_example,
      THEN mp, OF conjI[OF l(1) l(2)], unfolded if_not_P[OF n1]]
  note t2 = Run_state_not_found[of no_state ErrStateNotFound up_input app_example,
      THEN mp, OF conjI[OF l(1) l(2)], unfolded if_P[OF y2]]
  note t3 = Run_state_not_found[of pull_broken "ErrOther ''access denied''" up_input app_example,
      THEN mp, OF conjI[OF l(3) l(4)], unfolded if_not_P[OF n3]]
  from t1[THEN conjunct1] t1[THEN conjunct2, THEN conjunct2]
  have 1: "fst (Run no_state app_example destroy_input) = Returned (Some ErrStageNotFound)"
    "engine_calls (snd (Run no_state app_example destroy_input)) = []" by simp_all
  from t2 s have 2: "EngineOp ''up'' \<in> set (snd (Run no_state app_example up_input))"
    by blast
  from t3[THEN conjunct1] t3[THEN conjunct2, THEN conjunct2]
  have 3:
    "fst (Run pull_broken app_example up_input) = Returned (Some (ErrOther ''access denied''))"
    "engine_calls (snd (Run pull_broken app_example up_input)) = []" by simp_all
  from l s 1 2 3 show ?thesis by simp
qed

lemma remove_files_ok:
  "\<forall>n \<in> set files. HasPrefix n ''Pulumi'' \<longrightarrow> rm n = None \<Longrightarrow>
     remove_files rm files = (None, map OsRemove (filter (\<lambda>n. HasPrefix n ''Pulumi'') files))"
  by (induction files) auto

lemma remove_files_fails:
  "name \<in> set files \<Longrightarrow> HasPrefix name ''Pulumi'' \<Longrightarrow> rm name = Some err \<Longrightarrow>
     fst (remove_files rm files) \<noteq> None"
  by (induction files) (auto split: option.splits prod.splits)

lemma consume_no_unlock: "ProviderUnlock \<notin> set (snd (consume M sr c))"
proof (induction sr arbitrary: c)
  case (Cons r sr)
  show ?case
  proof (cases r)
    case (stream_event event)
    show ?thesis unfolding stream_event consume_event
      using Cons.IH by (auto split: sum.splits)
  qed simp_all
qed simp

lemma reserved_no_unlock:
  assumes "\<And>m. ProviderUnlock \<notin> set (effs m)" "ProviderUnlock \<notin> set (snd (snd st))"
  shows "ProviderUnlock \<notin> set (snd (snd (reserved outputs key merge effs st)))"
  using assms by (auto simp: reserved_def split: prod.splits option.splits json.splits)

lemma extract_outputs_no_unlock:
  "ProviderUnlock \<notin> set (snd (snd (extract_outputs w outputs c)))"
proof -
  let ?s1 = "reserved outputs ''_links'' merge_links (links_effects w) (None, c, [])"
  let ?s2 = "reserved outputs ''_hints'' merge_hints (\<lambda>m. []) ?s1"
  let ?s3 = "reserved outputs ''_warps'' (merge_warps (decode_Warp w)) (\<lambda>m. []) ?s2"
  let ?s4 = "reserved outputs ''_receivers'' (merge_receivers (decode_Receiver w)) (\<lambda>m. []) ?s3"
  have q1: "ProviderUnlock \<notin> set (snd (snd ?s1))"
    by (rule reserved_no_unlock) (simp_all add: links_effects_def)
  have q2: "ProviderUnlock \<notin> set (snd (snd ?s2))"
    by (rule reserved_no_unlock) (simp_all add: q1)
  have q3: "ProviderUnlock \<notin> set (snd (snd ?s3))"
    by (rule reserved_no_unlock) (simp_all add: q2)
  have q4: "ProviderUnlock \<notin> set (snd (snd ?s4))"
    by (rule reserved_no_unlock) (simp_all add: q3)
  obtain p c' es where s4: "?s4 = (p, c', es)" by (cases ?s4)
  show ?thesis using q4 unfolding extract_outputs_def s4 by (auto split: option.splits)
qed

lemma finalizer_no_unlock: "ProviderUnlock \<notin> set (snd (finalizer w c))"
  by (simp add: finalizer_alt finalizer_body_def case_prod_beta extract_outputs_no_unlock
      split: list.splits sum.splits option.splits json.splits)

lemma Run_engine_no_unlock: "ProviderUnlock \<notin> set (snd (Run_engine w input))"
  by (simp add: Run_engine_alt engine_call_alt finalizer_no_unlock consume_no_unlock)

lemma setup_steps_no_unlock:
  "ProviderUnlock \<notin> set (snd (files_step w input))"
  "ProviderUnlock \<notin> set (snd (config_step w skip app))"
  using files_step_effects[of w input] config_step_effects[of w skip app]
  by auto

lemma Run_setup_no_unlock: "ProviderUnlock \<notin> set (snd (Run_setup w app input))"
proof -
  let ?f = "filter (\<lambda>e. e = ProviderUnlock)"
  have "?f (snd (Run_setup w app input)) = []"
    unfolding Run_setup_def
    by (rule first_exit_quiet)
      (auto simp: step_effects setup_steps_no_unlock filter_empty_conv)
  then show ?thesis by (auto simp: filter_empty_conv)
qed

lemma Run_locked_no_unlock: "ProviderUnlock \<notin> set (snd (Run_locked w app input))"
  using Run_setup_no_unlock[of w app input] Run_engine_no_unlock[of w input]
  by (auto simp: Run_locked_def Run_pulled_def PushState_def PullState_def case_prod_beta
      split: option.splits)

lemma Run_after_lock:
  "provider_Lock w = None \<Longrightarrow>
     Run w app input =
       (fst (Run_locked w app input),
        [OnEvent (command_event input), ProviderLock] @ snd (Run_locked w app input) @
        snd (Unlock w))"
  by (simp add: Run_def command_event_def case_prod_beta)

lemma Unlock_fields:
  "fst (Run_locked (w\<lparr>os_ReadDir := a, os_Remove := b, provider_Unlock := c\<rparr>) app input) =
     fst (Run_locked w app input)"
proof -
  let ?w = "w\<lparr>os_ReadDir := a, os_Remove := b, provider_Unlock := c\<rparr>"
  have p: "PullState ?w = PullState w"
    by (simp add: PullState_def cong: option.case_cong)
  have s: "Run_setup ?w app input = Run_setup w app input"
    by (simp add: Run_setup_def build_step_def files_step_def config_step_def
        cong: option.case_cong sum.case_cong json.case_cong if_cong)
  have e: "engine_call ?w input = engine_call w input" by (simp add: engine_call_def)
  have le: "links_effects ?w = links_effects w"
    by (rule ext) (simp add: links_effects_def)
  have f: "finalizer_body ?w x = finalizer_body w x" for x
    by (simp add: finalizer_body_def extract_outputs_def le
        cong: option.case_cong sum.case_cong list.case_cong prod.case_cong)
  have r: "fst (Run_engine ?w input) = fst (Run_engine w input)"
    by (auto simp: Run_engine_alt e f)
  show ?thesis
    by (simp add: Run_locked_def Run_pulled_def p s r case_prod_beta split: option.splits)
qed

text \<open>
  Claim C5, evaluated on the code. Once the lock is taken, every run ends with the
  effects of \<^verbatim>\<open>Unlock\<close>, and what \<^verbatim>\<open>Run\<close> returns does not depend on how \<^verbatim>\<open>Unlock\<close> fares.
  When the directory can be read and every file with the prefix \<^verbatim>\<open>Pulumi\<close> can be
  removed, \<^verbatim>\<open>Unlock\<close> removes those files in order and then releases the remote lock.
  When one of those files cannot be removed, or the directory cannot be read, \<^verbatim>\<open>Unlock\<close>
  returns the error before the release: the run has taken the lock and no call
  releases it.
\<close>

theorem Unlock_leaves_lock_on_failure:
  "(provider_Lock w = None \<longrightarrow>
      (\<exists>es. snd (Run w app input) = es @ snd (Unlock w)) \<and>
      fst (Run (w\<lparr>os_ReadDir := a, os_Remove := b, provider_Unlock := c\<rparr>) app input) =
        fst (Run w app input)) \<and>
   (os_ReadDir w = Inr files \<and>
    (\<forall>n \<in> set files. HasPrefix n ''Pulumi'' \<longrightarrow> os_Remove w n = None) \<longrightarrow>
      Unlock w =
        (provider_Unlock w,
         OsReadDir # map OsRemove (filter (\<lambda>n. HasPrefix n ''Pulumi'') files) @
         [ProviderUnlock])) \<and>
   (os_ReadDir w = Inr files \<and> name \<in> set files \<and> HasPrefix name ''Pulumi'' \<and>
    os_Remove w name = Some err \<longrightarrow>
      fst (Unlock w) \<noteq> None \<and> ProviderUnlock \<notin> set (snd (Unlock w)) \<and>
      (provider_Lock w = None \<longrightarrow>
         ProviderLock \<in> set (snd (Run w app input)) \<and>
         ProviderUnlock \<notin> set (snd (Run w app input)))) \<and>
   (os_ReadDir w = Inl err \<longrightarrow>
      Unlock w = (Some err, [OsReadDir]) \<and>
      (provider_Lock w = None \<longrightarrow>
         ProviderLock \<in> set (snd (Run w app input)) \<and>
         ProviderUnlock \<notin> set (snd (Run w app input))))"
proof (intro conjI impI)
  assume l: "provider_Lock w = None"
  show "\<exists>es. snd (Run w app input) = es @ snd (Unlock w)"
    by (simp add: Run_after_lock[OF l])
  show "fst (Run (w\<lparr>os_ReadDir := a, os_Remove := b, provider_Unlock := c\<rparr>) app input) =
        fst (Run w app input)"
    using l by (simp add: Run_after_lock Unlock_fields)
next
  assume "os_ReadDir w = Inr files \<and>
    (\<forall>n \<in> set files. HasPrefix n ''Pulumi'' \<longrightarrow> os_Remove w n = None)"
  then show "Unlock w =
        (provider_Unlock w,
         OsReadDir # map OsRemove (filter (\<lambda>n. HasPrefix n ''Pulumi'') files) @
         [ProviderUnlock])"
    by (simp add: Unlock_def remove_files_ok)
next
  assume a: "os_ReadDir w = Inr files \<and> name \<in> set files \<and> HasPrefix name ''Pulumi'' \<and>
    os_Remove w name = Some err"
  then have f: "fst (remove_files (os_Remove w) files) \<noteq> None"
    using remove_files_fails by blast
  with a show u1: "fst (Unlock w) \<noteq> None"
    by (auto simp: Unlock_alt)
  from a f show u2: "ProviderUnlock \<notin> set (snd (Unlock w))"
    by (auto simp: Unlock_alt remove_files_effects)
  {
    assume l: "provider_Lock w = None"
    show "ProviderLock \<in> set (snd (Run w app input))"
      by (simp add: Run_after_lock[OF l])
    show "ProviderUnlock \<notin> set (snd (Run w app input))"
      using u2 by (simp add: Run_after_lock[OF l] Run_locked_no_unlock)
  }
next
  assume a: "os_ReadDir w = Inl err"
  then show u: "Unlock w = (Some err, [OsReadDir])" by (simp add: Unlock_def)
  {
    assume l: "provider_Lock w = None"
    show "ProviderLock \<in> set (snd (Run w app input))"
      by (simp add: Run_after_lock[OF l])
    show "ProviderUnlock \<notin> set (snd (Run w app input))"
      by (simp add: Run_after_lock[OF l] Run_locked_no_unlock u)
  }
qed

theorem Unlock_leaves_lock_on_failure_witness:
  "provider_Lock stuck_file = None \<and>
   os_ReadDir stuck_file = Inr [''Pulumi.dev.yaml'', ''Pulumi.yaml'', ''event.log''] \<and>
   ''Pulumi.yaml'' \<in> set [''Pulumi.dev.yaml'', ''Pulumi.yaml'', ''event.log''] \<and>
   HasPrefix ''Pulumi.yaml'' ''Pulumi'' \<and>
   os_Remove stuck_file ''Pulumi.yaml'' = Some (ErrOther ''permission denied'') \<and>
   Unlock stuck_file =
     (Some (ErrOther ''permission denied''),
      [OsReadDir, OsRemove ''Pulumi.dev.yaml'', OsRemove ''Pulumi.yaml'']) \<and>
   fst (Run stuck_file app_example up_input) = Returned None \<and>
   ProviderLock \<in> set (snd (Run stuck_file app_example up_input)) \<and>
   ProviderUnlock \<notin> set (snd (Run stuck_file app_example up_input)) \<and>
   os_ReadDir calm = Inr [''Pulumi.dev.yaml'', ''Pulumi.yaml'', ''event.log''] \<and>
   Unlock calm =
     (None, [OsReadDir, OsRemove ''Pulumi.dev.yaml'', OsRemove ''Pulumi.yaml'', ProviderUnlock])"
proof -
  let ?files = "[''Pulumi.dev.yaml'', ''Pulumi.yaml'', ''event.log'']"
  have l: "provider_Lock stuck_file = None" by (simp add: stuck_file_def calm_def)
  have d: "os_ReadDir stuck_file = Inr ?files" "os_ReadDir calm = Inr ?files"
    by (simp_all add: stuck_file_def calm_def)
  have m: "''Pulumi.yaml'' \<in> set ?files" by simp
  have h: "HasPrefix ''Pulumi.yaml'' ''Pulumi''" by (simp add: HasPrefix_def)
  have r: "os_Remove stuck_file ''Pulumi.yaml'' = Some (ErrOther ''permission denied'')"
    by (simp add: stuck_file_def calm_def)
  have ok: "\<forall>n \<in> set ?files. HasPrefix n ''Pulumi'' \<longrightarrow> os_Remove calm n = None"
    by (simp add: calm_def)
  have u: "Unlock stuck_file =
     (Some (ErrOther ''permission denied''),
      [OsReadDir, OsRemove ''Pulumi.dev.yaml'', OsRemove ''Pulumi.yaml''])"
    by (simp add: Unlock_def stuck_file_def calm_def HasPrefix_def)
  have o: "fst (Run stuck_file app_example up_input) = Returned None"
    unfolding Run_after_lock[OF l]
    by (simp add: Run_locked_def Run_pulled_def Run_engine_alt
        engine_call_alt finalizer_body_def PullState_def pull_exit_def stuck_file_def calm_def
        up_input_def Run_setup_def app_example_def err_step_def call_step_def
        build_step_def files_step_def config_step_def slice_at_def provider_config_def
        run_skip_def)
  note t1 = Unlock_leaves_lock_on_failure[of stuck_file app_example up_input _ _ _ ?files
      "''Pulumi.yaml''" "ErrOther ''permission denied''"]
  note t2 = Unlock_leaves_lock_on_failure[of calm app_example up_input _ _ _ ?files]
  from t1 l d m h r have 1: "ProviderLock \<in> set (snd (Run stuck_file app_example up_input))"
    "ProviderUnlock \<notin> set (snd (Run stuck_file app_example up_input))" by blast+
  from t2 d ok have 2: "Unlock calm =
     (None, [OsReadDir, OsRemove ''Pulumi.dev.yaml'', OsRemove ''Pulumi.yaml'', ProviderUnlock])"
    by (simp add: calm_def HasPrefix_def)
  from l d m h r u o 1 2 show ?thesis by simp
qed

section \<open>The claim about output extraction\<close>

lemma fold_outputs_map_of:
  "distinct (map fst xs) \<Longrightarrow>
     map_of (fold (\<lambda>(key, v) m. if HasPrefix key ''_'' then m else AList.update key v m) xs acc) k =
       (if \<not> HasPrefix k ''_'' \<and> k \<in> fst ` set xs then map_of xs k else map_of acc k)"
proof (induction xs arbitrary: acc)
  case Nil
  then show ?case by simp
next
  case (Cons x xs)
  obtain a b where x: "x = (a, b)" by (cases x)
  from Cons.prems x have d: "distinct (map fst xs)" and fresh: "a \<notin> fst ` set xs" by auto
  show ?case
    using fresh by (auto simp: x Cons.IH[OF d] update_conv')
qed

lemma fold_outputs_keys:
  "fst ` set (fold (\<lambda>(key, v) m. if HasPrefix key ''_'' then m else AList.update key v m) xs acc) =
     fst ` set acc \<union> {k \<in> fst ` set xs. \<not> HasPrefix k ''_''}"
proof (induction xs arbitrary: acc)
  case Nil
  then show ?case by simp
next
  case (Cons x xs)
  obtain a b where x: "x = (a, b)" by (cases x)
  show ?case by (auto simp: x Cons.IH dom_update)
qed

lemma fold_hints_map_of:
  "distinct (map fst xs) \<Longrightarrow>
     map_of (fold (\<lambda>(key, v) m. case v of JString str \<Rightarrow> AList.update key str m | _ \<Rightarrow> m) xs acc) k =
       (case map_of xs k of Some (JString s) \<Rightarrow> Some s | _ \<Rightarrow> map_of acc k)"
proof (induction xs arbitrary: acc)
  case Nil
  then show ?case by simp
next
  case (Cons x xs)
  obtain a b where x: "x = (a, b)" by (cases x)
  from Cons.prems x have d: "distinct (map fst xs)" and fresh: "a \<notin> fst ` set xs" by auto
  from fresh have n: "map_of xs a = None" by (simp add: map_of_eq_None_iff)
  show ?case
    by (cases b) (auto simp: x Cons.IH[OF d] update_conv' n split: option.splits json.splits)
qed

lemma reserved_field:
  assumes "\<And>m c. g (merge m c) = g c"
  shows "g (fst (snd (reserved outputs key merge effs st))) = g (fst (snd st))"
  using assms by (auto simp: reserved_def split: prod.splits option.splits json.splits)

lemma reserved_merged:
  "fst (reserved outputs key merge effs st) = None \<Longrightarrow>
     fst (snd (reserved outputs key merge effs st)) =
       (case map_of outputs key of
          Some (JObject m) \<Rightarrow> merge m (fst (snd st))
        | _ \<Rightarrow> fst (snd st))"
  by (auto simp: reserved_def split: prod.splits option.splits json.splits)

lemma reserved_fst_None:
  "fst (reserved outputs key merge effs st) = None \<longleftrightarrow>
     fst st = None \<and>
     (case map_of outputs key of None \<Rightarrow> True | Some (JObject m) \<Rightarrow> True | Some _ \<Rightarrow> False)"
  by (auto simp: reserved_def split: prod.splits option.splits json.splits)

lemma merge_Outputs:
  "CompleteEvent.Outputs (merge_links m c) = CompleteEvent.Outputs c"
  "CompleteEvent.Outputs (merge_hints m c) = CompleteEvent.Outputs c"
  "CompleteEvent.Outputs (merge_warps d m c) = CompleteEvent.Outputs c"
  "CompleteEvent.Outputs (merge_receivers d' m c) = CompleteEvent.Outputs c"
  by (simp_all add: merge_links_def merge_hints_def merge_warps_def merge_receivers_def)

lemma merge_Hints:
  "Hints (merge_links m c) = Hints c"
  "Hints (merge_warps d m c) = Hints c"
  "Hints (merge_receivers d' m c) = Hints c"
  "Hints (merge_outputs m c) = Hints c"
  by (simp_all add: merge_links_def merge_outputs_def merge_warps_def merge_receivers_def)

lemma extract_outputs_None:
  assumes "fst (extract_outputs w outputs c) = None"
  shows "CompleteEvent.Outputs (fst (snd (extract_outputs w outputs c))) =
           fold (\<lambda>(key, v) m. if HasPrefix key ''_'' then m else AList.update key v m)
             outputs (CompleteEvent.Outputs c)"
    and "Hints (fst (snd (extract_outputs w outputs c))) =
           (case map_of outputs ''_hints'' of
              Some (JObject hints) \<Rightarrow> Hints (merge_hints hints c)
            | _ \<Rightarrow> Hints c)"
proof -
  let ?s1 = "reserved outputs ''_links'' merge_links (links_effects w) (None, c, [])"
  let ?s2 = "reserved outputs ''_hints'' merge_hints (\<lambda>m. []) ?s1"
  let ?s3 = "reserved outputs ''_warps'' (merge_warps (decode_Warp w)) (\<lambda>m. []) ?s2"
  let ?s4 = "reserved outputs ''_receivers'' (merge_receivers (decode_Receiver w)) (\<lambda>m. []) ?s3"
  obtain p c4 es where s4: "?s4 = (p, c4, es)" by (cases ?s4)
  from assms have p: "p = None"
    unfolding extract_outputs_def s4 by (cases p) auto
  have ex: "fst (snd (extract_outputs w outputs c)) = merge_outputs outputs (fst (snd ?s4))"
    unfolding extract_outputs_def s4 using p by simp
  have n4: "fst ?s4 = None" using s4 p by simp
  then have n3: "fst ?s3 = None" by (simp only: reserved_fst_None)
  then have n2: "fst ?s2 = None" by (simp only: reserved_fst_None)
  have o: "CompleteEvent.Outputs (fst (snd ?s4)) = CompleteEvent.Outputs c"
    by (simp add: reserved_field[where g = CompleteEvent.Outputs] merge_Outputs)
  show "CompleteEvent.Outputs (fst (snd (extract_outputs w outputs c))) =
           fold (\<lambda>(key, v) m. if HasPrefix key ''_'' then m else AList.update key v m)
             outputs (CompleteEvent.Outputs c)"
    by (simp add: ex o merge_outputs_def)
  have h4: "Hints (fst (snd ?s4)) = Hints (fst (snd ?s2))"
    by (simp add: reserved_field[where g = Hints] merge_Hints)
  have h1: "Hints (fst (snd ?s1)) = Hints c"
    by (simp add: reserved_field[where g = Hints] merge_Hints)
  have h2: "Hints (fst (snd ?s2)) =
      (case map_of outputs ''_hints'' of
         Some (JObject hints) \<Rightarrow> Hints (merge_hints hints (fst (snd ?s1)))
       | _ \<Rightarrow> Hints (fst (snd ?s1)))"
    by (simp add: reserved_merged[OF n2] split: option.splits json.splits)
  have mh: "Hints (merge_hints hints x) = Hints (merge_hints hints c)"
    if "Hints x = Hints c" for hints x
    using that by (simp add: merge_hints_def)
  show "Hints (fst (snd (extract_outputs w outputs c))) =
           (case map_of outputs ''_hints'' of
              Some (JObject hints) \<Rightarrow> Hints (merge_hints hints c)
            | _ \<Rightarrow> Hints c)"
    by (simp add: ex merge_Hints h4 h2 h1 mh[OF h1] split: option.splits json.splits)
qed

lemma extract_outputs_returns:
  "fst (extract_outputs w outputs c) = None \<longleftrightarrow>
     list_all (\<lambda>key. case map_of outputs key of
                        None \<Rightarrow> True | Some (JObject m) \<Rightarrow> True | Some _ \<Rightarrow> False)
       [''_links'', ''_hints'', ''_warps'', ''_receivers'']"
proof -
  let ?s1 = "reserved outputs ''_links'' merge_links (links_effects w) (None, c, [])"
  let ?s2 = "reserved outputs ''_hints'' merge_hints (\<lambda>m. []) ?s1"
  let ?s3 = "reserved outputs ''_warps'' (merge_warps (decode_Warp w)) (\<lambda>m. []) ?s2"
  let ?s4 = "reserved outputs ''_receivers'' (merge_receivers (decode_Receiver w)) (\<lambda>m. []) ?s3"
  have "fst (extract_outputs w outputs c) = fst ?s4"
    by (simp add: extract_outputs_def case_prod_beta split: option.splits)
  then show ?thesis
    by (simp add: reserved_fst_None conj_ac)
qed

text \<open>
  Claim C8. The deferred function returns, rather than panics, exactly when the state
  has no resource or the outputs of the first resource decrypt and each of the four
  reserved keys is absent or holds a map. When it returns on a state with a resource,
  starting from a record with no outputs and no hints as \<^verbatim>\<open>Run\<close> does, the outputs of the
  record hold every key of the decrypted map that does not start with an underscore,
  with the decrypted value, and no key that starts with one, so none of \<^verbatim>\<open>_links\<close>,
  \<^verbatim>\<open>_hints\<close>, \<^verbatim>\<open>_warps\<close> and \<^verbatim>\<open>_receivers\<close>; the hints of the record hold the entries of
  \<^verbatim>\<open>_hints\<close> whose value is a string and nothing else. The maps are Go maps: each key
  once.
\<close>

theorem extract_outputs_partition:
  "((\<exists>c' es. finalizer_body w c = (None, c', es)) \<longleftrightarrow>
      (case deployment_Resources w of
         [] \<Rightarrow> True
       | r # rs \<Rightarrow>
           (case decrypt (json_Unmarshal w) (ResourceV3.Outputs r) of
              Inl p \<Rightarrow> False
            | Inr outputs \<Rightarrow>
                list_all (\<lambda>key. case map_of outputs key of
                                   None \<Rightarrow> True | Some (JObject m) \<Rightarrow> True | Some _ \<Rightarrow> False)
                  [''_links'', ''_hints'', ''_warps'', ''_receivers'']))) \<and>
   (deployment_Resources w = r # rs \<and>
    decrypt (json_Unmarshal w) (ResourceV3.Outputs r) = Inr outputs \<and>
    distinct (map fst outputs) \<and>
    (\<forall>hints. map_of outputs ''_hints'' = Some (JObject hints) \<longrightarrow> distinct (map fst hints)) \<and>
    finalizer_body w c = (None, c', es) \<and>
    CompleteEvent.Outputs c = [] \<and> Hints c = [] \<longrightarrow>
      (\<forall>k. map_of (CompleteEvent.Outputs c') k =
             (if HasPrefix k ''_'' then None else map_of outputs k)) \<and>
      (\<forall>k. HasPrefix k ''_'' \<longrightarrow> k \<notin> fst ` set (CompleteEvent.Outputs c')) \<and>
      (\<forall>k. map_of (Hints c') k =
             (case map_of outputs ''_hints'' of
                Some (JObject hints) \<Rightarrow>
                  (case map_of hints k of Some (JString s) \<Rightarrow> Some s | _ \<Rightarrow> None)
              | _ \<Rightarrow> None))) \<and>
   (CompleteEvent.Outputs (fst (engine_call w input)) = [] \<and>
    Hints (fst (engine_call w input)) = [])"
proof (intro conjI impI)
  show "(\<exists>c' es. finalizer_body w c = (None, c', es)) \<longleftrightarrow>
      (case deployment_Resources w of
         [] \<Rightarrow> True
       | r # rs \<Rightarrow>
           (case decrypt (json_Unmarshal w) (ResourceV3.Outputs r) of
              Inl p \<Rightarrow> False
            | Inr outputs \<Rightarrow>
                list_all (\<lambda>key. case map_of outputs key of
                                   None \<Rightarrow> True | Some (JObject m) \<Rightarrow> True | Some _ \<Rightarrow> False)
                  [''_links'', ''_hints'', ''_warps'', ''_receivers'']))"
  proof -
    have "(\<exists>c' es. finalizer_body w c = (None, c', es)) \<longleftrightarrow> fst (finalizer_body w c) = None"
      by (cases "finalizer_body w c") auto
    also have "\<dots> \<longleftrightarrow>
      (case deployment_Resources w of
         [] \<Rightarrow> True
       | r # rs \<Rightarrow>
           (case decrypt (json_Unmarshal w) (ResourceV3.Outputs r) of
              Inl p \<Rightarrow> False
            | Inr outputs \<Rightarrow>
                fst (extract_outputs w outputs
                       (c\<lparr>Resources := r\<lparr>ResourceV3.Outputs := outputs\<rparr> # rs\<rparr>)) = None))"
      by (simp add: finalizer_body_def case_prod_beta split: list.splits sum.splits)
    finally show ?thesis
      by (simp only: extract_outputs_returns)
  qed
next
  assume a: "deployment_Resources w = r # rs \<and>
    decrypt (json_Unmarshal w) (ResourceV3.Outputs r) = Inr outputs \<and>
    distinct (map fst outputs) \<and>
    (\<forall>hints. map_of outputs ''_hints'' = Some (JObject hints) \<longrightarrow> distinct (map fst hints)) \<and>
    finalizer_body w c = (None, c', es) \<and>
    CompleteEvent.Outputs c = [] \<and> Hints c = []"
  let ?c0 = "c\<lparr>Resources := r\<lparr>ResourceV3.Outputs := outputs\<rparr> # rs\<rparr>"
  from a have fb: "finalizer_body w c =
      (fst (extract_outputs w outputs ?c0), fst (snd (extract_outputs w outputs ?c0)),
       snd (snd (extract_outputs w outputs ?c0)) @
       (case map_of outputs ''_links'' of Some (JObject links) \<Rightarrow> [TypesFileClose] | _ \<Rightarrow> []))"
    by (simp add: finalizer_body_def case_prod_beta)
  with a have n: "fst (extract_outputs w outputs ?c0) = None"
    and c': "c' = fst (snd (extract_outputs w outputs ?c0))" by simp_all
  from a have d: "distinct (map fst outputs)" by blast
  have o: "CompleteEvent.Outputs c' =
      fold (\<lambda>(key, v) m. if HasPrefix key ''_'' then m else AList.update key v m) outputs []"
    using a by (simp add: c' extract_outputs_None(1)[OF n])
  show "\<forall>k. map_of (CompleteEvent.Outputs c') k =
             (if HasPrefix k ''_'' then None else map_of outputs k)"
  proof -
    have nn: "map_of outputs k = None" if "k \<notin> fst ` set outputs" for k
      using that by (simp add: map_of_eq_None_iff)
    show ?thesis by (auto simp: o fold_outputs_map_of[OF d] nn)
  qed
  show "\<forall>k. HasPrefix k ''_'' \<longrightarrow> k \<notin> fst ` set (CompleteEvent.Outputs c')"
    by (simp add: o fold_outputs_keys)
  have h: "Hints c' =
      (case map_of outputs ''_hints'' of
         Some (JObject hints) \<Rightarrow> Hints (merge_hints hints ?c0)
       | _ \<Rightarrow> [])"
    using a by (simp add: c' extract_outputs_None(2)[OF n] split: option.splits json.splits)
  show "\<forall>k. map_of (Hints c') k =
             (case map_of outputs ''_hints'' of
                Some (JObject hints) \<Rightarrow>
                  (case map_of hints k of Some (JString s) \<Rightarrow> Some s | _ \<Rightarrow> None)
              | _ \<Rightarrow> None)"
  proof
    fix k
    show "map_of (Hints c') k =
             (case map_of outputs ''_hints'' of
                Some (JObject hints) \<Rightarrow>
                  (case map_of hints k of Some (JString s) \<Rightarrow> Some s | _ \<Rightarrow> None)
              | _ \<Rightarrow> None)"
    proof (cases "\<exists>hints. map_of outputs ''_hints'' = Some (JObject hints)")
      case True
      then obtain hints where hs: "map_of outputs ''_hints'' = Some (JObject hints)" by blast
      with a have dh: "distinct (map fst hints)" by blast
      from a have "Hints ?c0 = []" by simp
      then show ?thesis
        by (simp add: h hs merge_hints_def fold_hints_map_of[OF dh]
            split: option.splits json.splits)
    next
      case False
      then show ?thesis by (auto simp: h split: option.splits json.splits)
    qed
  qed
next
  show "CompleteEvent.Outputs (fst (engine_call w input)) = []"
    by (simp add: engine_call_alt consume_other_fields new_complete_def)
next
  show "Hints (fst (engine_call w input)) = []"
    by (simp add: engine_call_alt consume_other_fields new_complete_def)
qed

theorem extract_outputs_partition_witness:
  "deployment_Resources failing =
     [zero_ResourceV3\<lparr>ResourceV3.URN := ''urn:root'', ResourceV3.Outputs := outputs_example\<rparr>] \<and>
   decrypt (json_Unmarshal failing) outputs_example =
     Inr [(''apiUrl'', JString ''https://api.example.com''),
          (''_hints'', JObject [(''web'', JString ''https://example.com''), (''n'', JNumber 1)]),
          (''_links'', JObject [(''db'', JNumber 7)]),
          (''_internal'', JBool True)] \<and>
   fst (finalizer_body failing new_complete) = None \<and>
   CompleteEvent.Outputs new_complete = [] \<and> Hints new_complete = [] \<and>
   map_of (CompleteEvent.Outputs (fst (snd (finalizer_body failing new_complete)))) ''apiUrl'' =
     Some (JString ''https://api.example.com'') \<and>
   map_of (CompleteEvent.Outputs (fst (snd (finalizer_body failing new_complete)))) ''_links'' = None \<and>
   map_of (CompleteEvent.Outputs (fst (snd (finalizer_body failing new_complete)))) ''_hints'' = None \<and>
   map_of (CompleteEvent.Outputs (fst (snd (finalizer_body failing new_complete)))) ''_internal'' = None \<and>
   map_of (Hints (fst (snd (finalizer_body failing new_complete)))) ''web'' =
     Some ''https://example.com'' \<and>
   map_of (Hints (fst (snd (finalizer_body failing new_complete)))) ''n'' = None"
proof -
  let ?r = "zero_ResourceV3\<lparr>ResourceV3.URN := ''urn:root'', ResourceV3.Outputs := outputs_example\<rparr>"
  let ?outputs = "[(''apiUrl'', JString ''https://api.example.com''),
          (''_hints'', JObject [(''web'', JString ''https://example.com''), (''n'', JNumber 1)]),
          (''_links'', JObject [(''db'', JNumber 7)]),
          (''_internal'', JBool True)]"
  let ?c' = "fst (snd (finalizer_body failing new_complete))"
  let ?es = "snd (snd (finalizer_body failing new_complete))"
  have r: "deployment_Resources failing = ?r # []" by (simp add: failing_def calm_def)
  have d: "decrypt (json_Unmarshal failing) (ResourceV3.Outputs ?r) = Inr ?outputs"
    by (simp add: failing_def calm_def outputs_example_def index_def parsed_any_def
        Unmarshal_examples_def)
  have d': "decrypt (json_Unmarshal failing) outputs_example = Inr ?outputs"
    using d by simp
  have n: "fst (finalizer_body failing new_complete) = None" by (rule failing_body)
  then have fb: "finalizer_body failing new_complete = (None, ?c', ?es)"
    by (metis prod.collapse)
  have e: "CompleteEvent.Outputs new_complete = []" "Hints new_complete = []"
    by (simp_all add: new_complete_def)
  have u: "distinct (map fst ?outputs)" by simp
  have h: "\<forall>hints. map_of ?outputs ''_hints'' = Some (JObject hints) \<longrightarrow> distinct (map fst hints)"
    by simp
  note t = extract_outputs_partition[of failing new_complete ?r "[]" ?outputs ?c' ?es,
      THEN conjunct2, THEN conjunct1, THEN mp, OF conjI[OF r conjI[OF d conjI[OF u conjI[OF h
        conjI[OF fb conjI[OF e(1) e(2)]]]]]]]
  note o = t[THEN conjunct1, THEN spec] and hh = t[THEN conjunct2, THEN conjunct2, THEN spec]
  have 1: "map_of (CompleteEvent.Outputs ?c') ''apiUrl'' = Some (JString ''https://api.example.com'')"
    using o[of "''apiUrl''"] by (simp add: HasPrefix_def)
  have 2: "map_of (CompleteEvent.Outputs ?c') ''_links'' = None"
    using o[of "''_links''"] by (simp add: HasPrefix_def)
  have 3: "map_of (CompleteEvent.Outputs ?c') ''_hints'' = None"
    using o[of "''_hints''"] by (simp add: HasPrefix_def)
  have 4: "map_of (CompleteEvent.Outputs ?c') ''_internal'' = None"
    using o[of "''_internal''"] by (simp add: HasPrefix_def)
  have 5: "map_of (Hints ?c') ''web'' = Some ''https://example.com''"
    using hh[of "''web''"] by simp
  have 6: "map_of (Hints ?c') ''n'' = None"
    using hh[of "''n''"] by simp
  from r d' n e 1 2 3 4 5 6 show ?thesis by simp
qed

section \<open>The claims about \<^verbatim>\<open>Import\<close>\<close>

lemma find_URN_None: "find_URN urn rs = None \<longleftrightarrow> (\<forall>r \<in> set rs. ResourceV3.URN r \<noteq> urn)"
  by (induction rs) auto

lemma find_URN_Some:
  "find_URN urn rs = Some i \<Longrightarrow>
     i < length rs \<and> ResourceV3.URN (rs ! i) = urn \<and> (\<forall>j < i. ResourceV3.URN (rs ! j) \<noteq> urn)"
proof (induction rs arbitrary: i)
  case Nil
  then show ?case by simp
next
  case (Cons r rs)
  show ?case
  proof (cases "urn = ResourceV3.URN r")
    case True
    with Cons.prems show ?thesis by simp
  next
    case False
    with Cons.prems obtain i' where i': "find_URN urn rs = Some i'" "i = Suc i'" by auto
    from Cons.IH[OF i'(1)] False i'(2) show ?thesis
      by (auto simp: nth_Cons split: nat.splits)
  qed
qed

lemma map_URN_update:
  "i < length rs \<Longrightarrow> ResourceV3.URN (rs ! i) = ResourceV3.URN r' \<Longrightarrow>
     map ResourceV3.URN (rs[i := r']) = map ResourceV3.URN rs"
  by (simp add: map_update list_update_same_conv)

lemma Import_record_cases:
  "(tokens (ImportOptions.Type input) = Inl err \<longrightarrow>
      Import_record tokens urn parent input resources = Inl err) \<and>
   (tokens (ImportOptions.Type input) = Inr ty \<longrightarrow>
      ((\<forall>r \<in> set resources. ResourceV3.URN r \<noteq> urn) \<longrightarrow>
         Import_record tokens urn parent input resources =
           Inr (resources @
                [\<lparr>ResourceV3.URN = urn, Custom = True, ResourceV3.ID = ImportOptions.ID input,
                  ResourceV3.Type = ty, ResourceV3.Outputs = [], ResourceV3.Parent = parent\<rparr>])) \<and>
      ((\<exists>r \<in> set resources. ResourceV3.URN r = urn) \<longrightarrow>
         (\<exists>i < length resources.
            ResourceV3.URN (resources ! i) = urn \<and>
            (\<forall>j < i. ResourceV3.URN (resources ! j) \<noteq> urn) \<and>
            Import_record tokens urn parent input resources =
              Inr (resources[i := (resources ! i)
                     \<lparr>ResourceV3.URN := urn, ResourceV3.Parent := parent, Custom := True,
                      ResourceV3.ID := ImportOptions.ID input, ResourceV3.Type := ty\<rparr>]))) \<and>
      (\<forall>rs'. Import_record tokens urn parent input resources = Inr rs' \<longrightarrow>
         length rs' =
           (if \<exists>r \<in> set resources. ResourceV3.URN r = urn then length resources
            else length resources + 1) \<and>
         length (filter (\<lambda>r. ResourceV3.URN r = urn) rs') =
           max 1 (length (filter (\<lambda>r. ResourceV3.URN r = urn) resources)) \<and>
         (distinct (map ResourceV3.URN resources) \<longrightarrow> distinct (map ResourceV3.URN rs'))))"
proof (intro conjI impI)
  assume "tokens (ImportOptions.Type input) = Inl err"
  then show "Import_record tokens urn parent input resources = Inl err"
    by (simp add: Import_record_def case_prod_beta)
next
  assume t: "tokens (ImportOptions.Type input) = Inr ty"
  assume "\<forall>r \<in> set resources. ResourceV3.URN r \<noteq> urn"
  then have "find_URN urn resources = None" by (simp add: find_URN_None)
  then show "Import_record tokens urn parent input resources =
           Inr (resources @
                [\<lparr>ResourceV3.URN = urn, Custom = True, ResourceV3.ID = ImportOptions.ID input,
                  ResourceV3.Type = ty, ResourceV3.Outputs = [], ResourceV3.Parent = parent\<rparr>])"
    using t by (simp add: Import_record_def zero_ResourceV3_def)
next
  assume t: "tokens (ImportOptions.Type input) = Inr ty"
  assume "\<exists>r \<in> set resources. ResourceV3.URN r = urn"
  then have "find_URN urn resources \<noteq> None" by (simp add: find_URN_None)
  then obtain i where i: "find_URN urn resources = Some i" by blast
  from find_URN_Some[OF i] i t
  show "\<exists>i < length resources.
            ResourceV3.URN (resources ! i) = urn \<and>
            (\<forall>j < i. ResourceV3.URN (resources ! j) \<noteq> urn) \<and>
            Import_record tokens urn parent input resources =
              Inr (resources[i := (resources ! i)
                     \<lparr>ResourceV3.URN := urn, ResourceV3.Parent := parent, Custom := True,
                      ResourceV3.ID := ImportOptions.ID input, ResourceV3.Type := ty\<rparr>])"
    by (intro exI[of _ i]) (simp add: Import_record_def)
next
  assume t: "tokens (ImportOptions.Type input) = Inr ty"
  show "\<forall>rs'. Import_record tokens urn parent input resources = Inr rs' \<longrightarrow>
         length rs' =
           (if \<exists>r \<in> set resources. ResourceV3.URN r = urn then length resources
            else length resources + 1) \<and>
         length (filter (\<lambda>r. ResourceV3.URN r = urn) rs') =
           max 1 (length (filter (\<lambda>r. ResourceV3.URN r = urn) resources)) \<and>
         (distinct (map ResourceV3.URN resources) \<longrightarrow> distinct (map ResourceV3.URN rs'))"
  proof (intro allI impI)
    fix rs' assume r: "Import_record tokens urn parent input resources = Inr rs'"
    show "length rs' =
           (if \<exists>r \<in> set resources. ResourceV3.URN r = urn then length resources
            else length resources + 1) \<and>
         length (filter (\<lambda>r. ResourceV3.URN r = urn) rs') =
           max 1 (length (filter (\<lambda>r. ResourceV3.URN r = urn) resources)) \<and>
         (distinct (map ResourceV3.URN resources) \<longrightarrow> distinct (map ResourceV3.URN rs'))"
    proof (cases "find_URN urn resources")
      case None
      then have no: "\<forall>r \<in> set resources. ResourceV3.URN r \<noteq> urn" by (simp add: find_URN_None)
      from r t None have rs': "rs' = resources @
                [\<lparr>ResourceV3.URN = urn, Custom = True, ResourceV3.ID = ImportOptions.ID input,
                  ResourceV3.Type = ty, ResourceV3.Outputs = [], ResourceV3.Parent = parent\<rparr>]"
        by (simp add: Import_record_def zero_ResourceV3_def)
      from no have f: "filter (\<lambda>r. ResourceV3.URN r = urn) resources = []"
        by (simp add: filter_empty_conv)
      from no show ?thesis by (auto simp: rs' f)
    next
      case (Some i)
      from find_URN_Some[OF Some] have i: "i < length resources"
        "ResourceV3.URN (resources ! i) = urn" by simp_all
      let ?r' = "(resources ! i)
                     \<lparr>ResourceV3.URN := urn, ResourceV3.Parent := parent, Custom := True,
                      ResourceV3.ID := ImportOptions.ID input, ResourceV3.Type := ty\<rparr>"
      from r t Some have rs': "rs' = resources[i := ?r']" by (simp add: Import_record_def)
      have m: "map ResourceV3.URN rs' = map ResourceV3.URN resources"
        unfolding rs' using i by (intro map_URN_update) simp_all
      have ex: "\<exists>r \<in> set resources. ResourceV3.URN r = urn"
        using i by (metis nth_mem)
      have fl: "length (filter (\<lambda>r. ResourceV3.URN r = urn) xs) =
          length (filter (\<lambda>u. u = urn) (map ResourceV3.URN xs))" for xs
        by (induction xs) auto
      from ex have pos: "1 \<le> length (filter (\<lambda>r. ResourceV3.URN r = urn) resources)"
        by (induction resources) auto
      have "length rs' = length resources" by (simp add: rs')
      moreover have "length (filter (\<lambda>r. ResourceV3.URN r = urn) rs') =
           max 1 (length (filter (\<lambda>r. ResourceV3.URN r = urn) resources))"
        using pos by (simp add: fl[of rs'] m comp_def)
      ultimately show ?thesis using ex m by simp
    qed
  qed
qed

lemma first_exit_subset:
  "e \<in> set (snd (first_exit steps)) \<Longrightarrow> \<exists>s \<in> set steps. e \<in> set (snd s)"
proof (induction steps rule: first_exit.induct)
  case (3 es rest)
  then show ?case by (auto split: prod.splits)
qed auto

lemma record_step_effects:
  "StackImport x \<in> set (snd (record_step w urn parent input)) \<Longrightarrow>
     Import_record (tokens_ParseTypeToken w) urn parent input (deployment_Resources w) = Inr x"
  by (auto simp: record_step_def call_step_def split: sum.splits)

lemma Import_locked_StackImport:
  assumes "StackImport x \<in> set (snd (Import_locked w app input urn parent))"
  shows "Import_record (tokens_ParseTypeToken w) urn parent input (deployment_Resources w) = Inr x"
proof -
  from assms obtain s where s: "s \<in> set
       [(map_option (\<lambda>err. Returned (Some err)) (fst (PullState w)), snd (PullState w)),
        err_step (provider_Passphrase w),
        err_step (home_Env w),
        call_step (auto_NewLocalWorkspace w) NewLocalWorkspace,
        call_step (auto_SelectStack w) SelectStack,
        config_step w import_skip app,
        call_step (stack_Export w) StackExport,
        err_step (Unmarshal_deployment w),
        record_step w urn parent input,
        (None, [Println ''imported'', Println ''refreshing'']),
        call_step (stack_Refresh w) (StackRefreshTarget urn),
        (Some (Returned (fst (PushState w))), snd (PushState w))]"
    and e: "StackImport x \<in> set (snd s)"
    unfolding Import_locked_def using first_exit_subset by blast
  have p: "StackImport x \<notin> set (snd (PullState w))"
    by (simp add: PullState_def split: option.splits)
  have c: "StackImport x \<notin> set (snd (config_step w import_skip app))"
    using config_step_effects[of w import_skip app] by auto
  from s e p c have "StackImport x \<in> set (snd (record_step w urn parent input))"
    by (auto simp: step_effects PushState_def)
  then show ?thesis by (rule record_step_effects)
qed

lemma Import_StackImport:
  assumes "Import_urns w app input = Inr (urn, parent)"
    and "StackImport x \<in> set (snd (Import w app input))"
  shows "Import_record (tokens_ParseTypeToken w) urn parent input (deployment_Resources w) = Inr x"
proof -
  from assms have "StackImport x \<in> set (snd (Import_locked w app input urn parent))"
    by (auto simp: Import_def case_prod_beta split: option.splits)
  then show ?thesis by (rule Import_locked_StackImport)
qed

text \<open>
  Claim C9. With a type token that parses: on a list with no record of the URN,
  \<^verbatim>\<open>Import\<close> appends one record that holds the URN, the parent, \<^verbatim>\<open>custom = true\<close>, the given
  ID and the parsed type token, and nothing else; on a list with a record of the URN
  it rewrites these five fields of the first such record where it stands. The list
  grows by one in the first case and keeps its length in the second, the number of
  records with the URN becomes one or stays what it was, and a list without a repeated
  URN stays so. With a type token that does not parse \<^verbatim>\<open>Import\<close> returns the error. What
  \<^verbatim>\<open>Import\<close> hands to \<^verbatim>\<open>stack.Import\<close> is this list.
\<close>

theorem Import_record_upsert:
  "(tokens (ImportOptions.Type input) = Inl err \<longrightarrow>
      Import_record tokens urn parent input resources = Inl err) \<and>
   (tokens (ImportOptions.Type input) = Inr ty \<longrightarrow>
      ((\<forall>r \<in> set resources. ResourceV3.URN r \<noteq> urn) \<longrightarrow>
         Import_record tokens urn parent input resources =
           Inr (resources @
                [\<lparr>ResourceV3.URN = urn, Custom = True, ResourceV3.ID = ImportOptions.ID input,
                  ResourceV3.Type = ty, ResourceV3.Outputs = [], ResourceV3.Parent = parent\<rparr>])) \<and>
      ((\<exists>r \<in> set resources. ResourceV3.URN r = urn) \<longrightarrow>
         (\<exists>i < length resources.
            ResourceV3.URN (resources ! i) = urn \<and>
            (\<forall>j < i. ResourceV3.URN (resources ! j) \<noteq> urn) \<and>
            Import_record tokens urn parent input resources =
              Inr (resources[i := (resources ! i)
                     \<lparr>ResourceV3.URN := urn, ResourceV3.Parent := parent, Custom := True,
                      ResourceV3.ID := ImportOptions.ID input, ResourceV3.Type := ty\<rparr>]))) \<and>
      (\<forall>rs'. Import_record tokens urn parent input resources = Inr rs' \<longrightarrow>
         length rs' =
           (if \<exists>r \<in> set resources. ResourceV3.URN r = urn then length resources
            else length resources + 1) \<and>
         length (filter (\<lambda>r. ResourceV3.URN r = urn) rs') =
           max 1 (length (filter (\<lambda>r. ResourceV3.URN r = urn) resources)) \<and>
         (distinct (map ResourceV3.URN resources) \<longrightarrow> distinct (map ResourceV3.URN rs')))) \<and>
   (Import_urns w app input = Inr (urn, parent) \<and>
    StackImport x \<in> set (snd (Import w app input)) \<longrightarrow>
      Import_record (tokens_ParseTypeToken w) urn parent input (deployment_Resources w) = Inr x)"
  using Import_record_cases[of tokens input err urn parent resources ty]
    Import_StackImport[of w app input urn parent x]
  by blast

theorem Import_record_upsert_witness:
  "tokens_ParseTypeToken adopting (ImportOptions.Type bucket_import) = Inr ''aws:s3/bucket:Bucket'' \<and>
   ResourceV3.URN root_resource \<noteq> ''urn:pulumi:dev::shop::aws:s3/bucket:Bucket::assets'' \<and>
   Import_record (tokens_ParseTypeToken adopting)
     ''urn:pulumi:dev::shop::aws:s3/bucket:Bucket::assets'' [] bucket_import [root_resource] =
     Inr [root_resource, bucket_record] \<and>
   ResourceV3.URN bucket_record = ''urn:pulumi:dev::shop::aws:s3/bucket:Bucket::assets'' \<and>
   Import_record (tokens_ParseTypeToken adopting)
     ''urn:pulumi:dev::shop::aws:s3/bucket:Bucket::assets'' [] bucket_import
     [root_resource, bucket_record\<lparr>ResourceV3.ID := ''old'', Custom := False\<rparr>] =
     Inr [root_resource, bucket_record] \<and>
   Import_urns adopting app_example bucket_import =
     Inr (''urn:pulumi:dev::shop::aws:s3/bucket:Bucket::assets'', []) \<and>
   StackImport [root_resource, bucket_record] \<in> set (snd (Import adopting app_example bucket_import)) \<and>
   fst (Import adopting app_example bucket_import) = Returned None"
proof -
  let ?urn = "''urn:pulumi:dev::shop::aws:s3/bucket:Bucket::assets''"
  let ?old = "bucket_record\<lparr>ResourceV3.ID := ''old'', Custom := False\<rparr>"
  have t: "tokens_ParseTypeToken adopting (ImportOptions.Type bucket_import) = Inr ''aws:s3/bucket:Bucket''"
    by (simp add: adopting_def calm_def bucket_import_def)
  have n: "ResourceV3.URN root_resource \<noteq> ?urn"
    by (simp add: root_resource_def zero_ResourceV3_def)
  have b: "ResourceV3.URN bucket_record = ?urn" by (simp add: bucket_record_def)
  have new: "\<lparr>ResourceV3.URN = ?urn, Custom = True, ResourceV3.ID = ImportOptions.ID bucket_import,
        ResourceV3.Type = ''aws:s3/bucket:Bucket'', ResourceV3.Outputs = [],
        ResourceV3.Parent = []\<rparr> = bucket_record"
    by (simp add: bucket_record_def bucket_import_def)
  note t1 = Import_record_upsert[of "tokens_ParseTypeToken adopting" bucket_import _ ?urn "[]"
      "[root_resource]" "''aws:s3/bucket:Bucket''"]
  from t1 t n have 1: "Import_record (tokens_ParseTypeToken adopting) ?urn [] bucket_import
      [root_resource] = Inr [root_resource, bucket_record]"
    by (simp add: new)
  note t2 = Import_record_upsert[of "tokens_ParseTypeToken adopting" bucket_import _ ?urn "[]"
      "[root_resource, ?old]" "''aws:s3/bucket:Bucket''"]
  have ex: "\<exists>r \<in> set [root_resource, ?old]. ResourceV3.URN r = ?urn"
    by (simp add: bucket_record_def)
  from t2 t ex obtain i where i: "i < length [root_resource, ?old]"
    "ResourceV3.URN ([root_resource, ?old] ! i) = ?urn"
    "Import_record (tokens_ParseTypeToken adopting) ?urn [] bucket_import [root_resource, ?old] =
       Inr ([root_resource, ?old][i := ([root_resource, ?old] ! i)
              \<lparr>ResourceV3.URN := ?urn, ResourceV3.Parent := [], Custom := True,
               ResourceV3.ID := ImportOptions.ID bucket_import,
               ResourceV3.Type := ''aws:s3/bucket:Bucket''\<rparr>])"
    by blast
  from i(1,2) n have "i = 1" by (cases i) auto
  with i(3) have 2: "Import_record (tokens_ParseTypeToken adopting) ?urn [] bucket_import
      [root_resource, ?old] = Inr [root_resource, bucket_record]"
    by (simp add: bucket_record_def bucket_import_def)
  have u: "Import_urns adopting app_example bucket_import = Inr (?urn, [])"
    by (simp add: Import_urns_def adopting_def calm_def urnPrefix_def urnFinal_def
        app_example_def bucket_import_def)
  have r: "record_step adopting ?urn [] bucket_import =
      (None, [StackImport [root_resource, bucket_record]])"
    using 1 by (simp add: record_step_def call_step_def adopting_def calm_def)
  have c: "config_step adopting import_skip app_example =
      (None, [SetAllConfig [(''aws:region'', ''us-east-1'')]])"
    by (simp add: config_step_def call_step_def adopting_def calm_def app_example_def
        provider_config_def import_skip_def)
  have l: "Import_locked adopting app_example bucket_import ?urn [] =
      (Some (Returned None),
       [OsRemoveAll, OsMkdirAll, ProviderPullState, NewLocalWorkspace, SelectStack,
        SetAllConfig [(''aws:region'', ''us-east-1'')], StackExport,
        StackImport [root_resource, bucket_record], Println ''imported'',
        Println ''refreshing'', StackRefreshTarget ?urn, ProviderPushState])"
    unfolding Import_locked_def r c
    by (simp add: adopting_def calm_def PullState_def PushState_def err_step_def call_step_def)
  have pl: "provider_Lock adopting = None" by (simp add: adopting_def calm_def)
  have im: "Import adopting app_example bucket_import =
      (Returned None,
       [Println ?urn, Println [], ProviderLock] @
       [OsRemoveAll, OsMkdirAll, ProviderPullState, NewLocalWorkspace, SelectStack,
        SetAllConfig [(''aws:region'', ''us-east-1'')], StackExport,
        StackImport [root_resource, bucket_record], Println ''imported'',
        Println ''refreshing'', StackRefreshTarget ?urn, ProviderPushState] @ [ProviderUnlock])"
    unfolding Import_def u by (simp add: l pl)
  have 3: "StackImport [root_resource, bucket_record] \<in>
      set (snd (Import adopting app_example bucket_import))"
    unfolding im by simp
  have 4: "fst (Import adopting app_example bucket_import) = Returned None"
    unfolding im by simp
  from t n 1 b 2 u 3 4 show ?thesis by blast
qed

lemma split_from_nonempty: "split_from sep acc s \<noteq> []"
  by (induction sep acc s rule: split_from.induct) auto

lemma Contains_Cons:
  assumes "\<not> prefix sep (c # cs)"
  shows "Contains (c # cs) sep \<longleftrightarrow> Contains cs sep"
proof
  assume "Contains (c # cs) sep"
  then obtain a b where ab: "c # cs = a @ sep @ b" unfolding Contains_def by blast
  show "Contains cs sep"
  proof (cases a)
    case Nil
    with ab have "prefix sep (c # cs)" by (simp add: prefix_def)
    with assms show ?thesis by simp
  next
    case (Cons x a')
    with ab have "cs = a' @ sep @ b" by simp
    then show ?thesis unfolding Contains_def by blast
  qed
next
  assume "Contains cs sep"
  then obtain a b where "cs = a @ sep @ b" unfolding Contains_def by blast
  then have "c # cs = (c # a) @ sep @ b" by simp
  then show "Contains (c # cs) sep" unfolding Contains_def by blast
qed

lemma Contains_prefix: "prefix sep s \<Longrightarrow> Contains s sep"
  unfolding Contains_def prefix_def by (metis append_Nil)

lemma split_from_length:
  "sep \<noteq> [] \<Longrightarrow>
     (if Contains s sep then 2 \<le> length (split_from sep acc s)
      else split_from sep acc s = [rev acc @ s])"
proof (induction sep acc s rule: split_from.induct)
  case (1 sep acc)
  then have "\<not> Contains [] sep" by (simp add: Contains_def)
  then show ?case by simp
next
  case (2 sep acc c cs)
  show ?case
  proof (cases "prefix sep (c # cs)")
    case True
    have "1 \<le> length (split_from sep [] (drop (length sep - 1) cs))"
      using split_from_nonempty[of sep "[]" "drop (length sep - 1) cs"]
      by (cases "split_from sep [] (drop (length sep - 1) cs)") auto
    with True Contains_prefix[OF True] show ?thesis by simp
  next
    case False
    from "2.IH"(2)[OF False "2.prems"] False show ?thesis
      by (simp add: Contains_Cons[OF False])
  qed
qed

lemma Contains_iff_Split: "sep \<noteq> [] \<Longrightarrow> Contains s sep \<longleftrightarrow> 2 \<le> length (Split s sep)"
  using split_from_length[of sep s "[]"] by (auto simp: Split_def split: if_splits)

lemma first_exit_fst:
  "fst (first_exit steps) = Some out \<Longrightarrow> \<exists>s \<in> set steps. fst s = Some out"
proof (induction steps rule: first_exit.induct)
  case (3 es rest)
  then show ?case by (auto split: prod.splits)
qed auto

lemma ConfigMap_panic: "ConfigMap skip providers config \<noteq> Inl IndexOutOfRange"
  by (induction skip providers config rule: ConfigMap.induct) (auto split: json.splits)

lemma step_outcomes:
  "fst (err_step r) \<noteq> Some (Panicked p)"
  "fst (call_step r e) \<noteq> Some (Panicked p)"
  "fst (config_step w skip app) \<noteq> Some (Panicked IndexOutOfRange)"
  "fst (record_step w urn parent input) \<noteq> Some (Panicked p)"
  using ConfigMap_panic[of skip "Providers app" "[]"]
  by (auto simp: err_step_def call_step_def config_step_def record_step_def
      split: sum.splits option.splits)

lemma Import_locked_no_index_panic:
  "fst (Import_locked w app input urn parent) \<noteq> Some (Panicked IndexOutOfRange)"
proof
  assume "fst (Import_locked w app input urn parent) = Some (Panicked IndexOutOfRange)"
  then obtain s where "s \<in> set
       [(map_option (\<lambda>err. Returned (Some err)) (fst (PullState w)), snd (PullState w)),
        err_step (provider_Passphrase w),
        err_step (home_Env w),
        call_step (auto_NewLocalWorkspace w) NewLocalWorkspace,
        call_step (auto_SelectStack w) SelectStack,
        config_step w import_skip app,
        call_step (stack_Export w) StackExport,
        err_step (Unmarshal_deployment w),
        record_step w urn parent input,
        (None, [Println ''imported'', Println ''refreshing'']),
        call_step (stack_Refresh w) (StackRefreshTarget urn),
        (Some (Returned (fst (PushState w))), snd (PushState w))]"
    and "fst s = Some (Panicked IndexOutOfRange)"
    unfolding Import_locked_def using first_exit_fst by blast
  then show False
    using step_outcomes(3)[of w import_skip app]
    by (auto simp: step_outcomes(1,2,4))
qed

lemma Import_urns_cases:
  "resource_ParseURN w (urnPrefix app @ urnFinal input) = Inl err \<Longrightarrow>
     Import_urns w app input = Inl (Returned (Some err))"
  "resource_ParseURN w (urnPrefix app @ urnFinal input) = Inr urn \<Longrightarrow>
     ImportOptions.Parent input \<noteq> [] \<Longrightarrow> \<not> Contains (ImportOptions.Parent input) ''::'' \<Longrightarrow>
     Import_urns w app input = Inl (Panicked IndexOutOfRange)"
  "ImportOptions.Parent input = [] \<or> Contains (ImportOptions.Parent input) ''::'' \<Longrightarrow>
     Import_urns w app input \<noteq> Inl (Panicked IndexOutOfRange)"
proof -
  show "Import_urns w app input = Inl (Returned (Some err))"
    if "resource_ParseURN w (urnPrefix app @ urnFinal input) = Inl err"
    using that by (simp add: Import_urns_def)
  show "Import_urns w app input = Inl (Panicked IndexOutOfRange)"
    if "resource_ParseURN w (urnPrefix app @ urnFinal input) = Inr urn"
      "ImportOptions.Parent input \<noteq> []" "\<not> Contains (ImportOptions.Parent input) ''::''"
  proof -
    from that(3) have "Split (ImportOptions.Parent input) ''::'' = [ImportOptions.Parent input]"
      using split_from_length[of "''::''" "ImportOptions.Parent input" "[]"]
      by (simp add: Split_def)
    with that(1,2) show ?thesis by (simp add: Import_urns_def slice_at_def)
  qed
  show "Import_urns w app input \<noteq> Inl (Panicked IndexOutOfRange)"
    if "ImportOptions.Parent input = [] \<or> Contains (ImportOptions.Parent input) ''::''"
  proof (cases "ImportOptions.Parent input = []")
    case True
    then show ?thesis by (simp add: Import_urns_def split: sum.splits)
  next
    case False
    with that have "2 \<le> length (Split (ImportOptions.Parent input) ''::'')"
      by (simp add: Contains_iff_Split)
    then show ?thesis
      by (auto simp: Import_urns_def slice_at_def split: sum.splits)
  qed
qed

text \<open>
  Claim C10. \<^verbatim>\<open>strings.Split\<close> on \<^verbatim>\<open>::\<close> gives one piece when the text has no \<^verbatim>\<open>::\<close> and at
  least two when it has one. A call of \<^verbatim>\<open>Import\<close> that gets past the first \<^verbatim>\<open>ParseURN\<close> with a
  parent that is not empty and has no \<^verbatim>\<open>::\<close> reads \<^verbatim>\<open>splits[1]\<close> out of range and panics
  before anything else is done; a call whose first \<^verbatim>\<open>ParseURN\<close> fails returns that error
  before the parent is looked at; a call with an empty parent or a parent that has a
  \<^verbatim>\<open>::\<close> never panics with an index out of range.
\<close>

theorem Import_parent_needs_separator:
  "(if Contains p ''::'' then 2 \<le> length (Split p ''::'') else Split p ''::'' = [p]) \<and>
   (resource_ParseURN w (urnPrefix app @ urnFinal input) = Inr urn \<and>
    ImportOptions.Parent input \<noteq> [] \<and> \<not> Contains (ImportOptions.Parent input) ''::'' \<longrightarrow>
      slice_at (Split (ImportOptions.Parent input) ''::'') 1 = Inl IndexOutOfRange \<and>
      Import w app input = (Panicked IndexOutOfRange, [])) \<and>
   (resource_ParseURN w (urnPrefix app @ urnFinal input) = Inl err \<longrightarrow>
      Import w app input = (Returned (Some err), [])) \<and>
   (ImportOptions.Parent input = [] \<or> Contains (ImportOptions.Parent input) ''::'' \<longrightarrow>
      fst (Import w app input) \<noteq> Panicked IndexOutOfRange)"
proof (intro conjI impI)
  show "if Contains p ''::'' then 2 \<le> length (Split p ''::'') else Split p ''::'' = [p]"
    using split_from_length[of "''::''" p "[]"] by (simp add: Split_def)
next
  assume a: "resource_ParseURN w (urnPrefix app @ urnFinal input) = Inr urn \<and>
    ImportOptions.Parent input \<noteq> [] \<and> \<not> Contains (ImportOptions.Parent input) ''::''"
  then have "Split (ImportOptions.Parent input) ''::'' = [ImportOptions.Parent input]"
    using split_from_length[of "''::''" "ImportOptions.Parent input" "[]"]
    by (simp add: Split_def)
  then show "slice_at (Split (ImportOptions.Parent input) ''::'') 1 = Inl IndexOutOfRange"
    by (simp add: slice_at_def)
  from a have "Import_urns w app input = Inl (Panicked IndexOutOfRange)"
    using Import_urns_cases(2) by blast
  then show "Import w app input = (Panicked IndexOutOfRange, [])"
    by (simp add: Import_def)
next
  assume "resource_ParseURN w (urnPrefix app @ urnFinal input) = Inl err"
  then have "Import_urns w app input = Inl (Returned (Some err))"
    by (rule Import_urns_cases(1))
  then show "Import w app input = (Returned (Some err), [])"
    by (simp add: Import_def)
next
  assume a: "ImportOptions.Parent input = [] \<or> Contains (ImportOptions.Parent input) ''::''"
  show "fst (Import w app input) \<noteq> Panicked IndexOutOfRange"
  proof (cases "Import_urns w app input")
    case (Inl out)
    with Import_urns_cases(3)[OF a, of w app] show ?thesis by (auto simp: Import_def)
  next
    case (Inr up)
    obtain urn' parent where up: "up = (urn', parent)" by (cases up)
    show ?thesis
      using Import_locked_no_index_panic[of w app input urn' parent]
      by (auto simp: Import_def Inr up case_prod_beta split: option.splits)
  qed
qed

theorem Import_parent_needs_separator_witness:
  "resource_ParseURN calm (urnPrefix app_example @ urnFinal orphan_import) =
     Inr ''urn:pulumi:dev::shop::aws:s3/bucket:Bucket::assets'' \<and>
   ImportOptions.Parent orphan_import = ''Assets'' \<and>
   \<not> Contains ''Assets'' ''::'' \<and>
   Split ''Assets'' ''::'' = [''Assets''] \<and>
   Import calm app_example orphan_import = (Panicked IndexOutOfRange, []) \<and>
   ImportOptions.Parent child_import = ''sst:aws:Bucket::Assets'' \<and>
   Contains ''sst:aws:Bucket::Assets'' ''::'' \<and>
   Split ''sst:aws:Bucket::Assets'' ''::'' = [''sst:aws:Bucket'', ''Assets''] \<and>
   fst (Import calm app_example child_import) \<noteq> Panicked IndexOutOfRange \<and>
   Import_urns calm app_example child_import =
     Inr (''urn:pulumi:dev::shop::sst:aws:Bucket$aws:s3/bucket:Bucket::assets'',
          ''urn:pulumi:dev::shop::sst:aws:Bucket::Assets'')"
proof -
  have s1: "Split ''Assets'' ''::'' = [''Assets'']" by (simp add: Split_def)
  have s2: "Split ''sst:aws:Bucket::Assets'' ''::'' = [''sst:aws:Bucket'', ''Assets'']"
    by (simp add: Split_def)
  have n: "\<not> Contains ''Assets'' ''::''"
    by (simp add: Contains_iff_Split s1)
  have c: "Contains ''sst:aws:Bucket::Assets'' ''::''"
    by (simp add: Contains_iff_Split s2)
  have p: "resource_ParseURN calm (urnPrefix app_example @ urnFinal orphan_import) =
     Inr ''urn:pulumi:dev::shop::aws:s3/bucket:Bucket::assets''"
    by (simp add: calm_def urnPrefix_def urnFinal_def app_example_def orphan_import_def
        bucket_import_def)
  have o: "ImportOptions.Parent orphan_import = ''Assets''"
    "ImportOptions.Parent child_import = ''sst:aws:Bucket::Assets''"
    by (simp_all add: orphan_import_def child_import_def bucket_import_def)
  have u: "Import_urns calm app_example child_import =
     Inr (''urn:pulumi:dev::shop::sst:aws:Bucket$aws:s3/bucket:Bucket::assets'',
          ''urn:pulumi:dev::shop::sst:aws:Bucket::Assets'')"
    by (simp add: Import_urns_def o s2 slice_at_def calm_def urnPrefix_def urnFinal_def
        app_example_def child_import_def bucket_import_def)
  note t1 = Import_parent_needs_separator[of _ calm app_example orphan_import
      "''urn:pulumi:dev::shop::aws:s3/bucket:Bucket::assets''"]
  note t2 = Import_parent_needs_separator[of _ calm app_example child_import]
  from t1 p o n have 1: "Import calm app_example orphan_import = (Panicked IndexOutOfRange, [])"
    by simp
  from t2 o c have 2: "fst (Import calm app_example child_import) \<noteq> Panicked IndexOutOfRange"
    by simp
  from p o n s1 1 c s2 2 u show ?thesis by simp
qed

end
